theory Spec2Isabelle
  imports Main "HOL-Library.AList" "HOL-Library.Char_ord"
begin

section \<open>Strings of the host language\<close>

text \<open>
  The extension is TypeScript. A string is a sequence of code units; the model uses
  \<^typ>\<open>string\<close>, so a code unit ranges over 0..255 (the Latin-1 block). Timestamps
  (\<open>new Date().toISOString()\<close>, \<open>serverTimestamp()\<close>) are milliseconds as \<^typ>\<open>nat\<close>.
\<close>

definition isUpper :: "nat \<Rightarrow> bool" where
  "isUpper n = (if 65 \<le> n \<and> n \<le> 90 then True
                else if n = 215 then False
                else 192 \<le> n \<and> n \<le> 222)"

definition toLowerCase_char :: "char \<Rightarrow> char" where
  "toLowerCase_char c =
     (if isUpper (of_char c) then char_of (of_char c + (32::nat)) else c)"

definition toLowerCase :: "string \<Rightarrow> string" where
  "toLowerCase s = map toLowerCase_char s"

text \<open>The character class \<open>[a-z0-9]\<close> of \<open>sanitizeFileName\<close>.\<close>

definition isAlnum :: "char \<Rightarrow> bool" where
  "isAlnum c =
     (if 97 \<le> (of_char c :: nat) \<and> (of_char c :: nat) \<le> 122 then True
      else 48 \<le> (of_char c :: nat) \<and> (of_char c :: nat) \<le> 57)"

text \<open>\<open>.replace(/[^a-z0-9]+/g, '_')\<close>: every maximal run outside the class becomes one underscore.\<close>

function replaceRuns :: "string \<Rightarrow> string" where
  "replaceRuns [] = []"
| "replaceRuns (c # cs) =
     (if isAlnum c then c # replaceRuns cs
      else CHR ''_'' # replaceRuns (dropWhile (\<lambda>d. \<not> isAlnum d) cs))"
  by pat_completeness auto
termination
  by (relation "measure length") (auto simp: le_imp_less_Suc length_dropWhile_le)

text \<open>\<open>.replace(/^_+|_+$/g, '')\<close>: the leading and the trailing run of underscores go.\<close>

definition trimUnderscores :: "string \<Rightarrow> string" where
  "trimUnderscores s =
     rev (dropWhile (\<lambda>c. c = CHR ''_'') (rev (dropWhile (\<lambda>c. c = CHR ''_'') s)))"

definition sanitizeFileName :: "string \<Rightarrow> string" where
  "sanitizeFileName name = trimUnderscores (replaceRuns (toLowerCase name))"

text \<open>
  The tables of \<open>getFileExtension\<close> and \<open>getCommentSyntax\<close>, looked up with the lower-cased
  language; a missing key gives the fallback. The tables are object literals in the source;
  the names they inherit from \<open>Object.prototype\<close> are not languages and are left out.
\<close>

definition extensions :: "(string \<times> string) list" where
  "extensions = [(''python'', ''py''), (''java'', ''java''), (''csharp'', ''cs''),
                 (''typescript'', ''ts''), (''javascript'', ''js'')]"

definition getFileExtension :: "string \<Rightarrow> string" where
  "getFileExtension language =
     (case map_of extensions (toLowerCase language) of Some e \<Rightarrow> e | None \<Rightarrow> ''txt'')"

definition syntax_table :: "(string \<times> string) list" where
  "syntax_table = [(''python'', ''#''), (''java'', ''//''), (''csharp'', ''//''),
                   (''typescript'', ''//''), (''javascript'', ''//'')]"

definition getCommentSyntax :: "string \<Rightarrow> string" where
  "getCommentSyntax language =
     (case map_of syntax_table (toLowerCase language) of Some c \<Rightarrow> c | None \<Rightarrow> ''#'')"

text \<open>
  The rendering of \<open>orderIndex\<close> inside a template literal. The field is a number that
  orders the sections of a lesson; the model takes it to be an integer, written in decimal
  with a minus sign when negative.
\<close>

definition digitChar :: "nat \<Rightarrow> char" where
  "digitChar d = char_of (48 + d)"

fun digits :: "nat \<Rightarrow> string" where
  "digits n = (if n < 10 then [digitChar n] else digits (n div 10) @ [digitChar (n mod 10)])"

declare digits.simps [simp del]

definition numberToString :: "int \<Rightarrow> string" where
  "numberToString i = (if i < 0 then CHR ''-'' # digits (nat (- i)) else digits (nat i))"

section \<open>Sections and the derived exercise path\<close>

datatype section_type = TextSection | CodeSection | VideoSection | InteractiveSection

record Section =
  id_s :: string
  lessonId :: string
  title :: string
  content :: string
  type_s :: section_type
  orderIndex :: int
  language :: "string option"
  starterValue :: "string option"

text \<open>\<open>section.language || 'python'\<close>: an absent or empty language is python.\<close>

definition languageOf :: "Section \<Rightarrow> string" where
  "languageOf sec = (case language sec of None \<Rightarrow> ''python''
                     | Some l \<Rightarrow> if l = [] then ''python'' else l)"

definition fileName :: "Section \<Rightarrow> string" where
  "fileName sec =
     ''exercise_'' @ numberToString (orderIndex sec) @ ''_'' @ sanitizeFileName (title sec)
       @ ''.'' @ getFileExtension (languageOf sec)"

text \<open>
  \<open>path.join(exercisesPath, fileName)\<close> for a normalised directory and a file name
  without separators.
\<close>

definition path_join :: "string \<Rightarrow> string \<Rightarrow> string" where
  "path_join dir name = dir @ ''/'' @ name"

definition exercisePath :: "string \<Rightarrow> Section \<Rightarrow> string" where
  "exercisePath exercisesPath sec = path_join exercisesPath (fileName sec)"

text \<open>The key under which \<open>trackLesson\<close> files a section: the lower-cased path.\<close>

definition trackedKey :: "string \<Rightarrow> Section \<Rightarrow> string" where
  "trackedKey exercisesPath sec = toLowerCase (exercisePath exercisesPath sec)"

section \<open>The remote answer store\<close>

datatype answer_type = CodeAnswer | InteractiveAnswer

record studentAnswer =
  sectionId :: string
  userId :: string
  lessonId_a :: string
  courseId_a :: "string option"
  answer :: string
  type_a :: answer_type
  createdAt :: nat
  updatedAt :: nat

text \<open>
  The collection \<open>studentAnswers\<close> is the list of its documents in query order. The query
  of \<open>getStudentAnswer\<close> and \<open>saveStudentAnswer\<close> filters on both ids and takes \<open>docs[0]\<close>.
\<close>

definition matches :: "string \<Rightarrow> string \<Rightarrow> studentAnswer \<Rightarrow> bool" where
  "matches sid uid d = (sectionId d = sid \<and> userId d = uid)"

definition getStudentAnswer :: "studentAnswer list \<Rightarrow> string \<Rightarrow> string \<Rightarrow> studentAnswer option" where
  "getStudentAnswer docs sid uid = find (matches sid uid) docs"

section \<open>Materialising an exercise file\<close>

datatype outcome = SyncedFromRemote | CreatedWithStarter | PreservedLocal

definition newline :: char where
  "newline = CHR 0x0A"

definition getDefaultBoilerplate :: "string \<Rightarrow> string \<Rightarrow> string" where
  "getDefaultBoilerplate lang ttl =
     getCommentSyntax lang @ '' Exercise: '' @ ttl @ [newline]
       @ getCommentSyntax lang @ '' TODO: Implement your solution here'' @ [newline, newline]"

text \<open>
  \<open>studentAnswer\<close> of \<open>createExerciseFile\<close>: looked up only for a truthy \<open>userId\<close>, and kept
  only when the document's \<open>answer\<close> is truthy (a non-empty string).
\<close>

definition fetchedAnswer :: "studentAnswer list \<Rightarrow> Section \<Rightarrow> string option \<Rightarrow> string option" where
  "fetchedAnswer docs sec uid =
     (case uid of
        None \<Rightarrow> None
      | Some u \<Rightarrow>
          if u = [] then None
          else (case getStudentAnswer docs (id_s sec) u of
                  None \<Rightarrow> None
                | Some a \<Rightarrow> if answer a = [] then None else Some (answer a)))"

definition starterContent :: "Section \<Rightarrow> string" where
  "starterContent sec =
     (let starterCode = (case starterValue sec of None \<Rightarrow> [] | Some v \<Rightarrow> v)
      in if starterCode = [] then getDefaultBoilerplate (languageOf sec) (title sec)
         else starterCode)"

text \<open>
  The local workspace is a map from paths to file contents. \<open>createExerciseFile\<close> returns
  the workspace after its writes and the outcome it logs. Reads of the store and writes of
  the disk are taken to complete.
\<close>

definition createExerciseFile ::
  "Section \<Rightarrow> string \<Rightarrow> string option \<Rightarrow> studentAnswer list \<Rightarrow> (string \<rightharpoonup> string)
     \<Rightarrow> (string \<rightharpoonup> string) \<times> outcome" where
  "createExerciseFile sec exercisesPath uid docs fs =
     (let filePath = exercisePath exercisesPath sec;
          fileExists = (fs filePath \<noteq> None)
      in case fetchedAnswer docs sec uid of
           Some studentAnswer \<Rightarrow> (fs(filePath \<mapsto> studentAnswer), SyncedFromRemote)
         | None \<Rightarrow>
             if \<not> fileExists then (fs(filePath \<mapsto> starterContent sec), CreatedWithStarter)
             else (fs, PreservedLocal))"

text \<open>No stored answer for the section and the user (no user at all included).\<close>

definition noRemoteRecord :: "studentAnswer list \<Rightarrow> Section \<Rightarrow> string option \<Rightarrow> bool" where
  "noRemoteRecord docs sec uid =
     (case uid of None \<Rightarrow> True | Some u \<Rightarrow> getStudentAnswer docs (id_s sec) u = None)"

text \<open>Two adjacent underscores somewhere in a string.\<close>

fun hasDoubleUnderscore :: "string \<Rightarrow> bool" where
  "hasDoubleUnderscore (a # b # r) =
     (if a = CHR ''_'' \<and> b = CHR ''_'' then True else hasDoubleUnderscore (b # r))"
| "hasDoubleUnderscore [a] = False"
| "hasDoubleUnderscore [] = False"

section \<open>The path format in the words of the specification\<close>

text \<open>
  The character class \<open>[a-z0-9]\<close> as two ranges of characters.
\<close>

definition spec_alnum :: "char \<Rightarrow> bool" where
  "spec_alnum c =
     ((CHR ''a'' \<le> c \<and> c \<le> CHR ''z'') \<or> (CHR ''0'' \<le> c \<and> c \<le> CHR ''9''))"

text \<open>
  The slug of a title: lower-case it, take its maximal runs of alphanumeric characters in
  order, and join them with single underscores. This is what remains when every run of
  other characters is collapsed to one underscore and the underscores at both ends go.
\<close>

function spec_words :: "string \<Rightarrow> string list" where
  "spec_words [] = []"
| "spec_words (c # cs) =
     (if spec_alnum c then (c # takeWhile spec_alnum cs) # spec_words (dropWhile spec_alnum cs)
      else spec_words cs)"
  by pat_completeness auto
termination
  by (relation "measure length") (auto simp: le_imp_less_Suc length_dropWhile_le)

fun join_underscore :: "string list \<Rightarrow> string" where
  "join_underscore [] = []"
| "join_underscore [w] = w"
| "join_underscore (w # v # ws) = w @ CHR ''_'' # join_underscore (v # ws)"

definition spec_slug :: "string \<Rightarrow> string" where
  "spec_slug t = join_underscore (spec_words (toLowerCase t))"

text \<open>
  The extension of the identity's language as stored (compared without regard to case): the
  five known languages, \<open>txt\<close> for any other, and python's when there is none.
\<close>

definition spec_ext :: "string option \<Rightarrow> string" where
  "spec_ext l =
     (case l of
        None \<Rightarrow> ''py''
      | Some x \<Rightarrow>
          if x = [] then ''py''
          else if toLowerCase x = ''python'' then ''py''
          else if toLowerCase x = ''java'' then ''java''
          else if toLowerCase x = ''csharp'' then ''cs''
          else if toLowerCase x = ''typescript'' then ''ts''
          else if toLowerCase x = ''javascript'' then ''js''
          else ''txt'')"

text \<open>The number a string of decimal digits denotes.\<close>

definition decimal_value :: "string \<Rightarrow> nat" where
  "decimal_value s = foldl (\<lambda>a c. 10 * a + (of_char c - 48)) 0 s"

text \<open>The second half of \<open>trimUnderscores\<close>: the trailing run of underscores goes.\<close>

definition trimEnd :: "string \<Rightarrow> string" where
  "trimEnd x = rev (dropWhile (\<lambda>c. c = CHR ''_'') (rev x))"

text \<open>The exercises and the stored answer of the scenarios.\<close>

definition hello_section :: Section where
  "hello_section =
     \<lparr>id_s = ''sec-hello'', lessonId = ''lesson-1'', title = ''  Hello, World  '', content = [],
      type_s = CodeSection, orderIndex = 12, language = Some ''Java'', starterValue = None\<rparr>"


definition loops_section :: Section where
  "loops_section =
     \<lparr>id_s = ''sec-loops'', lessonId = ''lesson-1'', title = ''Intro to Loops!!'', content = [],
      type_s = CodeSection, orderIndex = 3, language = Some ''python'', starterValue = None\<rparr>"

definition saved_answer :: "string \<Rightarrow> studentAnswer" where
  "saved_answer c =
     \<lparr>sectionId = ''sec-loops'', userId = ''user-1'', lessonId_a = ''lesson-1'',
      courseId_a = Some ''course-1'', answer = c, type_a = CodeAnswer,
      createdAt = 1000, updatedAt = 2000\<rparr>"

section \<open>The input metrics tracker\<close>

text \<open>
  \<open>FileMetrics\<close> is the accumulator kept per file, \<open>InputMetrics\<close> the snapshot handed to a
  push (its fields carry the suffix \<open>_im\<close>). A timestamp is \<open>null\<close> or an ISO string in the
  source; here \<open>None\<close> or the milliseconds it denotes.
\<close>

record fileMetrics =
  keystrokeCount :: nat
  pasteCount :: nat
  pasteCharCount :: nat
  firstInputAt :: "nat option"
  lastInputAt :: "nat option"

record inputMetrics =
  keystrokeCount_im :: nat
  pasteCount_im :: nat
  pasteCharCount_im :: nat
  editDurationMs_im :: nat
  charCount_im :: nat
  firstInputAt_im :: nat
  lastInputAt_im :: nat

definition PASTE_CHAR_THRESHOLD :: nat where
  "PASTE_CHAR_THRESHOLD = 2"

text \<open>\<open>String.prototype.includes\<close>.\<close>

fun includes_s :: "string \<Rightarrow> string \<Rightarrow> bool" where
  "includes_s [] sub = (sub = [])"
| "includes_s (c # cs) sub = (if take (length sub) (c # cs) = sub then True else includes_s cs sub)"

text \<open>The class \<open>\s\<close> within the code units of the model.\<close>

definition isWhitespace :: "char \<Rightarrow> bool" where
  "isWhitespace c = ((of_char c :: nat) \<in> set [9, 10, 11, 12, 13, 32, 160])"

text \<open>\<open>/^\r?\n\s*$/.test(insertedText)\<close>.\<close>

definition isNewlineWithIndent :: "string \<Rightarrow> bool" where
  "isNewlineWithIndent insertedText =
     (case insertedText of
        [] \<Rightarrow> False
      | c # r \<Rightarrow>
          if c = CHR 0x0D
          then (case r of [] \<Rightarrow> False | d # r' \<Rightarrow> d = newline \<and> list_all isWhitespace r')
          else c = newline \<and> list_all isWhitespace r)"

text \<open>The body of the loop over \<open>e.contentChanges\<close>, for one change with text \<open>insertedText\<close>.\<close>

definition countChange :: "fileMetrics \<Rightarrow> string \<Rightarrow> fileMetrics" where
  "countChange m insertedText =
     (if length insertedText = 0 then m\<lparr>keystrokeCount := keystrokeCount m + 1\<rparr>
      else if length insertedText \<le> PASTE_CHAR_THRESHOLD \<or> isNewlineWithIndent insertedText
      then m\<lparr>keystrokeCount := keystrokeCount m + 1\<rparr>
      else m\<lparr>pasteCount := pasteCount m + 1,
             pasteCharCount := pasteCharCount m + length insertedText\<rparr>)"

definition emptyMetrics :: fileMetrics where
  "emptyMetrics = \<lparr>keystrokeCount = 0, pasteCount = 0, pasteCharCount = 0,
                    firstInputAt = None, lastInputAt = None\<rparr>"

text \<open>
  \<open>getOrCreate\<close> returns the entry under the lower-cased path, a fresh one when there is
  none; \<open>handleDocumentChange\<close> mutates it in place, which the model writes back.
\<close>

definition getOrCreate :: "(string \<rightharpoonup> fileMetrics) \<Rightarrow> string \<Rightarrow> fileMetrics" where
  "getOrCreate metrics filePath =
     (case metrics (toLowerCase filePath) of None \<Rightarrow> emptyMetrics | Some m \<Rightarrow> m)"

definition handleDocumentChange ::
  "(string \<rightharpoonup> fileMetrics) \<Rightarrow> string \<Rightarrow> string list \<Rightarrow> nat \<Rightarrow> (string \<rightharpoonup> fileMetrics)" where
  "handleDocumentChange metrics filePath contentChanges now =
     (if \<not> includes_s filePath ''exercise_'' then metrics
      else if contentChanges = [] then metrics
      else
        let m = getOrCreate metrics filePath;
            m1 = m\<lparr>firstInputAt := (case firstInputAt m of None \<Rightarrow> Some now | Some t \<Rightarrow> Some t),
                    lastInputAt := Some now\<rparr>
        in metrics(toLowerCase filePath \<mapsto> foldl countChange m1 contentChanges))"

text \<open>
  \<open>getAndReset\<close> returns the snapshot and the tracker without the entry.
  \<open>Math.max(0, last - first)\<close> is written out on the integers.
\<close>

definition getAndReset ::
  "(string \<rightharpoonup> fileMetrics) \<Rightarrow> string \<Rightarrow> nat \<Rightarrow> nat \<Rightarrow> inputMetrics \<times> (string \<rightharpoonup> fileMetrics)" where
  "getAndReset metrics filePath charCount now =
     (let key = toLowerCase filePath;
          m = metrics key;
          result =
            \<lparr>keystrokeCount_im = (case m of None \<Rightarrow> 0 | Some x \<Rightarrow> keystrokeCount x),
             pasteCount_im = (case m of None \<Rightarrow> 0 | Some x \<Rightarrow> pasteCount x),
             pasteCharCount_im = (case m of None \<Rightarrow> 0 | Some x \<Rightarrow> pasteCharCount x),
             editDurationMs_im =
               (case m of
                  None \<Rightarrow> 0
                | Some x \<Rightarrow>
                    (case firstInputAt x of
                       None \<Rightarrow> 0
                     | Some f \<Rightarrow>
                         (case lastInputAt x of
                            None \<Rightarrow> 0
                          | Some l \<Rightarrow> nat (max 0 (int l - int f))))),
             charCount_im = charCount,
             firstInputAt_im =
               (case m of None \<Rightarrow> now
                | Some x \<Rightarrow> (case firstInputAt x of None \<Rightarrow> now | Some f \<Rightarrow> f)),
             lastInputAt_im =
               (case m of None \<Rightarrow> now
                | Some x \<Rightarrow> (case lastInputAt x of None \<Rightarrow> now | Some l \<Rightarrow> l))\<rparr>
      in (result, metrics(key := None)))"

text \<open>
  The classification in the words of the specification. Whitespace is a blank, a tab, a
  line feed, a vertical tab, a form feed, a carriage return or a no-break space. A newline
  followed only by whitespace is a line feed, or a carriage return and a line feed, and
  then whitespace to the end. A keystroke is an empty insertion, an insertion of at most
  two characters, or a newline followed only by whitespace; every other insertion is a
  paste.
\<close>

definition spec_whitespace :: "char \<Rightarrow> bool" where
  "spec_whitespace c =
     (c \<in> set [CHR '' '', CHR 0x09, CHR 0x0A, CHR 0x0B, CHR 0x0C, CHR 0x0D, CHR 0xA0])"

definition spec_newline_indent :: "string \<Rightarrow> bool" where
  "spec_newline_indent t =
     (if take 1 t = [CHR 0x0A] then list_all spec_whitespace (drop 1 t)
      else if take 2 t = [CHR 0x0D, CHR 0x0A] then list_all spec_whitespace (drop 2 t)
      else False)"

definition spec_keystroke :: "string \<Rightarrow> bool" where
  "spec_keystroke t =
     (if t = [] then True else if length t \<le> 2 then True else spec_newline_indent t)"

definition spec_paste :: "string \<Rightarrow> bool" where
  "spec_paste t = (if spec_keystroke t then False else True)"

text \<open>A tracked exercise file on which edits arrive, one change per event.\<close>

definition typeEach :: "(string \<rightharpoonup> fileMetrics) \<Rightarrow> string \<Rightarrow> (string \<times> nat) list \<Rightarrow> (string \<rightharpoonup> fileMetrics)" where
  "typeEach metrics filePath evs =
     foldl (\<lambda>ms (t, now). handleDocumentChange ms filePath [t] now) metrics evs"

text \<open>The tracked file of the scenarios, five typed characters, and a pasted block.\<close>

definition loops_path :: string where
  "loops_path = ''/w/exercise_3_intro_to_loops.py''"

definition hello_events :: "(string \<times> nat) list" where
  "hello_events = [(''h'', 100), (''e'', 200), (''l'', 300), (''l'', 400), (''o'', 500)]"

definition block50 :: string where
  "block50 = ''def solve(xs): return sorted(xs)[len(xs) // 2] #ok''"

text \<open>A line feed and 49 blanks, as an editor inserts for a new indented line.\<close>

definition indent50 :: string where
  "indent50 = CHR 0x0A # ''                                                 ''"

section \<open>Saving an answer\<close>

text \<open>
  \<open>saveStudentAnswer(sectionId, userId, lessonId, content, type, courseId)\<close>: the query for
  both ids; when it is not empty, \<open>updateDoc\<close> of \<open>docs[0]\<close> with the fields \<open>answer\<close> and
  \<open>updatedAt\<close>; otherwise \<open>addDoc\<close> of a new document, with \<open>courseId\<close> only when truthy.
  \<open>serverTimestamp()\<close> is the time \<open>ts\<close>.
\<close>

fun updateFirst :: "('a \<Rightarrow> bool) \<Rightarrow> ('a \<Rightarrow> 'a) \<Rightarrow> 'a list \<Rightarrow> 'a list" where
  "updateFirst P f [] = []"
| "updateFirst P f (d # ds) = (if P d then f d # ds else d # updateFirst P f ds)"

definition saveStudentAnswer ::
  "string \<Rightarrow> string \<Rightarrow> string \<Rightarrow> string \<Rightarrow> answer_type \<Rightarrow> string option \<Rightarrow> nat
     \<Rightarrow> studentAnswer list \<Rightarrow> studentAnswer list" where
  "saveStudentAnswer sid uid lid content' type' cid ts docs =
     (case find (matches sid uid) docs of
        Some existing \<Rightarrow>
          updateFirst (matches sid uid) (\<lambda>d. d\<lparr>answer := content', updatedAt := ts\<rparr>) docs
      | None \<Rightarrow>
          docs @ [\<lparr>sectionId = sid, userId = uid, lessonId_a = lid,
                   courseId_a = (case cid of None \<Rightarrow> None
                                 | Some c \<Rightarrow> if c = [] then None else Some c),
                   answer = content', type_a = type', createdAt = ts, updatedAt = ts\<rparr>])"

section \<open>The file sync manager\<close>

text \<open>
  A timeout armed by \<open>queueSync\<close>: the path and the course its callback closes over, and the
  time from which the runtime may run it.
\<close>

record timer =
  t_path :: string
  t_courseId :: string
  t_due :: nat

text \<open>
  An activation of \<open>syncFile\<close> that is suspended at an \<open>await\<close>: at \<open>fs.readFile\<close>
  (\<open>Reading\<close>), or inside \<open>saveStudentAnswer\<close> with the content read and the metrics
  snapshot taken (\<open>Saving\<close>). It holds what the activation has bound so far, and whether the
  timer callback awaits it (the callback then deletes the entry of \<open>pendingSaves\<close>).
\<close>

datatype phase = Reading | Saving string inputMetrics

record task =
  k_path :: string
  k_courseId :: string
  k_section :: Section
  k_userId :: string
  k_phase :: phase
  k_fromTimer :: bool

text \<open>
  The fields of \<open>FileSyncManager\<close> (the watcher is the course its listener closes over;
  the two JavaScript maps are association lists in insertion order; \<open>metricsTracker\<close> is
  the map of the tracker), followed by its surroundings: the timeouts armed in the runtime,
  the suspended activations, the workspace files, the answer store, the signed-in user,
  the workspace root, the clock, and the list of completed store writes (path, content).
\<close>

record sync_state =
  fileWatcher :: "string option"
  pendingSaves :: "(string \<times> nat) list"
  syncInProgress :: "string set"
  fileToSectionMap :: "(string \<times> Section) list"
  trackedLessons :: "string set"
  currentCourseId :: "string option"
  metricsTracker :: "string \<rightharpoonup> fileMetrics"
  timers :: "(nat \<times> timer) list"
  nextTimer :: nat
  tasks :: "(nat \<times> task) list"
  nextTask :: nat
  files :: "string \<rightharpoonup> string"
  answers :: "studentAnswer list"
  signedIn :: "string option"
  workspaceRoot :: "string option"
  clock :: nat
  pushes :: "(string \<times> string) list"

definition initial ::
  "string option \<Rightarrow> string option \<Rightarrow> (string \<rightharpoonup> string) \<Rightarrow> studentAnswer list \<Rightarrow> sync_state" where
  "initial root user fs docs =
     \<lparr>fileWatcher = None, pendingSaves = [], syncInProgress = {}, fileToSectionMap = [],
      trackedLessons = {}, currentCourseId = None, metricsTracker = Map.empty,
      timers = [], nextTimer = 0, tasks = [], nextTask = 0,
      files = fs, answers = docs, signedIn = user, workspaceRoot = root, clock = 0,
      pushes = []\<rparr>"

text \<open>
  \<open>stopWatching\<close>: the watcher is disposed and the three collections are cleared. The
  timeouts recorded in \<open>pendingSaves\<close> are not passed to \<open>clearTimeout\<close>.
\<close>

definition stopWatching :: "sync_state \<Rightarrow> sync_state" where
  "stopWatching s =
     s\<lparr>fileWatcher := None, pendingSaves := [], fileToSectionMap := [],
       trackedLessons := {}, currentCourseId := None\<rparr>"

definition startCourseWatcher :: "string \<Rightarrow> sync_state \<Rightarrow> sync_state" where
  "startCourseWatcher cid s =
     (case workspaceRoot s of
        None \<Rightarrow> s
      | Some root \<Rightarrow> if root = [] then s else s\<lparr>fileWatcher := Some cid\<rparr>)"

text \<open>The loop of \<open>trackLesson\<close> over the sections: code sections are filed under their key.\<close>

definition addSection :: "string \<Rightarrow> (string \<times> Section) list \<Rightarrow> Section \<Rightarrow> (string \<times> Section) list" where
  "addSection exercisesPath m sec =
     (if type_s sec = CodeSection then AList.update (trackedKey exercisesPath sec) sec m else m)"

definition courseChanged :: "string option \<Rightarrow> string \<Rightarrow> bool" where
  "courseChanged current cid =
     (case current of None \<Rightarrow> False | Some c \<Rightarrow> if c = [] then False else c \<noteq> cid)"

definition trackLesson :: "string \<Rightarrow> string \<Rightarrow> Section list \<Rightarrow> string \<Rightarrow> sync_state \<Rightarrow> sync_state" where
  "trackLesson exercisesPath lid sections cid s =
     (let s1 = (if courseChanged (currentCourseId s) cid then stopWatching s else s);
          s2 = s1\<lparr>currentCourseId := Some cid,
                  trackedLessons := insert lid (trackedLessons s1),
                  fileToSectionMap := foldl (addSection exercisesPath) (fileToSectionMap s1) sections\<rparr>
      in if fileWatcher s2 = None then startCourseWatcher cid s2 else s2)"

text \<open>
  \<open>queueSync\<close>: a timeout recorded for the path is cleared, a new one is armed and recorded.
\<close>

definition clearTimeout :: "nat \<Rightarrow> sync_state \<Rightarrow> sync_state" where
  "clearTimeout h s = s\<lparr>timers := AList.delete h (timers s)\<rparr>"

definition queueSync :: "string \<Rightarrow> string \<Rightarrow> nat \<Rightarrow> sync_state \<Rightarrow> sync_state" where
  "queueSync filePath cid delayMs s =
     (let s1 = (case map_of (pendingSaves s) filePath of
                  None \<Rightarrow> s
                | Some existingTimeout \<Rightarrow> clearTimeout existingTimeout s);
          timeout = nextTimer s1
      in s1\<lparr>timers := timers s1 @ [(timeout, \<lparr>t_path = filePath, t_courseId = cid,
                                               t_due = clock s1 + delayMs\<rparr>)],
            nextTimer := Suc timeout,
            pendingSaves := AList.update filePath timeout (pendingSaves s1)\<rparr>)"

text \<open>The listener of the watcher: \<open>queueSync(uri.fsPath, '', courseId)\<close> with the default delay.\<close>

definition onDidChange :: "string \<Rightarrow> sync_state \<Rightarrow> sync_state" where
  "onDidChange filePath s =
     (case fileWatcher s of None \<Rightarrow> s | Some cid \<Rightarrow> queueSync filePath cid 2000 s)"

text \<open>
  What follows the \<open>await this.syncFile(...)\<close> of the timer callback once \<open>syncFile\<close> has
  returned: \<open>pendingSaves.delete(filePath)\<close>. Another caller has nothing to do.
\<close>

definition afterSync :: "bool \<Rightarrow> string \<Rightarrow> sync_state \<Rightarrow> sync_state" where
  "afterSync fromTimer filePath s =
     (if fromTimer then s\<lparr>pendingSaves := AList.delete filePath (pendingSaves s)\<rparr> else s)"

text \<open>The \<open>finally\<close> block of \<open>syncFile\<close>.\<close>

definition finallyBlock :: "string \<Rightarrow> sync_state \<Rightarrow> sync_state" where
  "finallyBlock filePath s = s\<lparr>syncInProgress := syncInProgress s - {filePath}\<rparr>"

text \<open>
  \<open>syncFile\<close> up to its first \<open>await\<close>: an untracked file and a file already in progress
  return at once; without a user the \<open>finally\<close> block runs and it returns; otherwise the
  activation is suspended at \<open>fs.readFile\<close>.
\<close>

definition syncFile :: "string \<Rightarrow> string \<Rightarrow> bool \<Rightarrow> sync_state \<Rightarrow> sync_state" where
  "syncFile filePath cid fromTimer s =
     (case map_of (fileToSectionMap s) (toLowerCase filePath) of
        None \<Rightarrow> afterSync fromTimer filePath s
      | Some sec \<Rightarrow>
          if filePath \<in> syncInProgress s then afterSync fromTimer filePath s
          else
            let s1 = s\<lparr>syncInProgress := insert filePath (syncInProgress s)\<rparr>
            in (case signedIn s1 of
                  None \<Rightarrow> afterSync fromTimer filePath (finallyBlock filePath s1)
                | Some u \<Rightarrow>
                    if u = [] then afterSync fromTimer filePath (finallyBlock filePath s1)
                    else s1\<lparr>tasks := tasks s1 @
                                 [(nextTask s1,
                                   \<lparr>k_path = filePath, k_courseId = cid, k_section = sec,
                                    k_userId = u, k_phase = Reading, k_fromTimer = fromTimer\<rparr>)],
                             nextTask := Suc (nextTask s1)\<rparr>))"

text \<open>The end of an activation: it leaves the list, the \<open>finally\<close> block runs, the caller goes on.\<close>

definition settle :: "nat \<Rightarrow> task \<Rightarrow> sync_state \<Rightarrow> sync_state" where
  "settle k t s =
     afterSync (k_fromTimer t) (k_path t)
       (finallyBlock (k_path t) (s\<lparr>tasks := AList.delete k (tasks s)\<rparr>))"

text \<open>
  \<open>fs.readFile\<close> settles. When it rejects (the flag, or no such file) the activation ends
  through \<open>catch\<close> and \<open>finally\<close>. Otherwise the content is bound, \<open>getAndReset\<close> takes the
  snapshot, and the activation is suspended inside \<open>saveStudentAnswer\<close>.
\<close>

definition readSettles :: "nat \<Rightarrow> bool \<Rightarrow> sync_state \<Rightarrow> sync_state" where
  "readSettles k ok s =
     (case map_of (tasks s) k of
        None \<Rightarrow> s
      | Some t \<Rightarrow>
          (case k_phase t of
             Saving c im \<Rightarrow> s
           | Reading \<Rightarrow>
               (case (if ok then files s (k_path t) else None) of
                  None \<Rightarrow> settle k t s
                | Some c \<Rightarrow>
                    s\<lparr>metricsTracker :=
                        snd (getAndReset (metricsTracker s) (k_path t) (length c) (clock s)),
                      tasks := AList.update k
                        (t\<lparr>k_phase := Saving c
                             (fst (getAndReset (metricsTracker s) (k_path t) (length c) (clock s)))\<rparr>)
                        (tasks s)\<rparr>)))"

text \<open>
  \<open>saveStudentAnswer\<close> settles: on success the store holds the upsert; either way the
  activation ends. The call site passes the metrics snapshot as a seventh argument, for
  which \<open>saveStudentAnswer\<close> has no parameter.
\<close>

definition saveSettles :: "nat \<Rightarrow> bool \<Rightarrow> sync_state \<Rightarrow> sync_state" where
  "saveSettles k ok s =
     (case map_of (tasks s) k of
        None \<Rightarrow> s
      | Some t \<Rightarrow>
          (case k_phase t of
             Reading \<Rightarrow> s
           | Saving c im \<Rightarrow>
               settle k t
                 (if ok
                  then s\<lparr>answers := saveStudentAnswer (id_s (k_section t)) (k_userId t)
                                       (lessonId (k_section t)) c CodeAnswer
                                       (Some (k_courseId t)) (clock s) (answers s),
                         pushes := pushes s @ [(k_path t, c)]\<rparr>
                  else s)))"

text \<open>The runtime runs the callback of an armed timeout that is due.\<close>

definition timerFires :: "nat \<Rightarrow> sync_state \<Rightarrow> sync_state" where
  "timerFires h s =
     (case map_of (timers s) h of
        None \<Rightarrow> s
      | Some t \<Rightarrow>
          if clock s < t_due t then s
          else syncFile (t_path t) (t_courseId t) True (s\<lparr>timers := AList.delete h (timers s)\<rparr>))"

definition syncCurrentFile :: "string \<Rightarrow> sync_state \<Rightarrow> sync_state" where
  "syncCurrentFile filePath s =
     (if fileToSectionMap s = [] then s
      else (case currentCourseId s of
              None \<Rightarrow> s
            | Some cid \<Rightarrow> if cid = [] then s else syncFile filePath cid False s))"

text \<open>
  What can happen to the manager, one event at a time on the single event loop: calls of
  its public methods, the watcher reporting a changed file, a text change reaching the
  tracker, the user writing a file, time passing, a due timeout running, and the two
  awaited operations of an activation settling (with success or failure).
\<close>

datatype event =
    TrackLesson string string "Section list" string
  | StopWatching
  | FileChanged string
  | SyncCurrentFile string
  | DocumentChange string "string list"
  | UserWrites string string
  | Advance nat
  | TimerFires nat
  | ReadSettles nat bool
  | SaveSettles nat bool

fun step :: "event \<Rightarrow> sync_state \<Rightarrow> sync_state" where
  "step (TrackLesson exercisesPath lid sections cid) s = trackLesson exercisesPath lid sections cid s"
| "step StopWatching s = stopWatching s"
| "step (FileChanged filePath) s = onDidChange filePath s"
| "step (SyncCurrentFile filePath) s = syncCurrentFile filePath s"
| "step (DocumentChange filePath changes) s =
     s\<lparr>metricsTracker := handleDocumentChange (metricsTracker s) filePath changes (clock s)\<rparr>"
| "step (UserWrites filePath c) s = s\<lparr>files := (files s)(filePath \<mapsto> c)\<rparr>"
| "step (Advance ms) s = s\<lparr>clock := clock s + ms\<rparr>"
| "step (TimerFires h) s = timerFires h s"
| "step (ReadSettles k ok) s = readSettles k ok s"
| "step (SaveSettles k ok) s = saveSettles k ok s"

fun run :: "event list \<Rightarrow> sync_state \<Rightarrow> sync_state" where
  "run [] s = s"
| "run (e # es) s = run es (step e s)"

text \<open>The paths of the suspended activations, and the armed timeouts of one path.\<close>

definition inFlight :: "sync_state \<Rightarrow> string list" where
  "inFlight s = map (\<lambda>(k, t). k_path t) (tasks s)"

definition armedFor :: "string \<Rightarrow> sync_state \<Rightarrow> nat list" where
  "armedFor filePath s = map fst (filter (\<lambda>(h, t). t_path t = filePath) (timers s))"

text \<open>
  The bookkeeping of \<open>queueSync\<close> as a property of a state: the armed timeouts have
  distinct handles below the next one and distinct paths, and each is the one recorded in
  \<open>pendingSaves\<close> for its path. The events that leave it intact without more ado: file and
  text changes, writes of the user, and time passing.
\<close>

definition recorded :: "sync_state \<Rightarrow> bool" where
  "recorded s =
     (distinct (map fst (timers s))
      \<and> distinct (map (\<lambda>(h, t). t_path t) (timers s))
      \<and> list_all (\<lambda>(h, t). map_of (pendingSaves s) (t_path t) = Some h \<and> h < nextTimer s)
           (timers s))"

definition quiet :: "event \<Rightarrow> bool" where
  "quiet e = (case e of FileChanged q \<Rightarrow> True | Advance n \<Rightarrow> True | UserWrites q c \<Rightarrow> True
              | DocumentChange q cs \<Rightarrow> True | _ \<Rightarrow> False)"

text \<open>
  Mutual exclusion as a property of a state: no path has two suspended activations, the
  paths of the activations are the paths marked in \<open>syncInProgress\<close>, and the activations
  have distinct numbers below the next one.
\<close>

definition exclusive :: "sync_state \<Rightarrow> bool" where
  "exclusive s =
     (distinct (inFlight s) \<and> set (inFlight s) = syncInProgress s
      \<and> distinct (map fst (tasks s)) \<and> list_all (\<lambda>(k, t). k < nextTask s) (tasks s))"

section \<open>Scenarios\<close>

text \<open>
  A signed-in user with the workspace \<open>/w\<close>, the exercise file on disk, and an empty answer
  store (or one that holds an answer for the exercise); opening the lesson tracks the file.
\<close>

definition demo_initial :: sync_state where
  "demo_initial = initial (Some ''/w'') (Some ''user-1'') [loops_path \<mapsto> ''x = 1''] []"

definition demo_with_answer :: sync_state where
  "demo_with_answer =
     initial (Some ''/w'') (Some ''user-1'') [loops_path \<mapsto> ''x = 1''] [saved_answer ''print(1)'']"

definition open_lesson :: event where
  "open_lesson = TrackLesson ''/w'' ''lesson-1'' [loops_section] ''course-1''"

text \<open>A manual sync has started and waits for the file; and the file has been read.\<close>

definition reading_state :: sync_state where
  "reading_state = run [open_lesson, SyncCurrentFile loops_path] demo_initial"

definition saving_state :: sync_state where
  "saving_state = run [open_lesson, SyncCurrentFile loops_path, ReadSettles 0 True] demo_initial"

text \<open>
  The file changes; the timeout runs at 2000 and its push reads the file at once but its
  store write stays pending. The file changes again at 2100, the store write completes at
  2500, and the file changes a third time at 3000. Afterwards both remaining timeouts run.
\<close>

definition first_push_slow :: "event list" where
  "first_push_slow =
     [open_lesson, FileChanged loops_path, Advance 2000, TimerFires 0, ReadSettles 0 True,
      Advance 100, UserWrites loops_path ''x = 2'', FileChanged loops_path,
      Advance 400, SaveSettles 0 True,
      Advance 500, UserWrites loops_path ''x = 3'', FileChanged loops_path]"

definition both_timers_run :: "event list" where
  "both_timers_run =
     [Advance 1100, TimerFires 1, ReadSettles 1 True, SaveSettles 1 True,
      Advance 900, TimerFires 2, ReadSettles 2 True, SaveSettles 2 True]"

text \<open>
  The file of course-1 changes, then a lesson of course-2 is tracked before the timeout is
  due. Afterwards the lesson of course-1 is opened again and the timeout runs.
\<close>

definition switch_course :: "event list" where
  "switch_course =
     [open_lesson, FileChanged loops_path,
      TrackLesson ''/v'' ''lesson-9'' [] ''course-2'']"

definition switch_back :: "event list" where
  "switch_back =
     [open_lesson, Advance 2000, TimerFires 0, ReadSettles 0 True, SaveSettles 0 True]"

text \<open>Five characters are typed, then a manual sync reads the file.\<close>

definition typed_then_pushed :: "event list" where
  "typed_then_pushed =
     [open_lesson,
      DocumentChange loops_path [''h''], DocumentChange loops_path [''e''],
      DocumentChange loops_path [''l''], DocumentChange loops_path [''l''],
      DocumentChange loops_path [''o''],
      Advance 700, SyncCurrentFile loops_path, ReadSettles 0 True]"

section \<open>Facts about the path derivation\<close>

lemma digits_nonempty: "digits n \<noteq> []"
  by (subst digits.simps) simp

lemma of_char_toLowerCase_char:
  "(of_char (toLowerCase_char c) :: nat) =
     (if isUpper (of_char c) then of_char c + 32 else of_char c)"
  by (auto simp: toLowerCase_char_def isUpper_def split: if_splits)

lemma digitChar_code: "d < 10 \<Longrightarrow> (of_char (digitChar d) :: nat) = 48 + d"
  by (simp add: digitChar_def)

lemma digitChar_inj: "a < 10 \<Longrightarrow> b < 10 \<Longrightarrow> digitChar a = digitChar b \<Longrightarrow> a = b"
  by (metis digitChar_code add_left_cancel)

lemma digits_inj: "digits n = digits m \<Longrightarrow> n = m"
proof (induction n arbitrary: m rule: digits.induct)
  case (1 n)
  show ?case
  proof (cases "n < 10")
    case True
    show ?thesis
    proof (cases "m < 10")
      case True
      with \<open>n < 10\<close> "1.prems" show ?thesis
        by (subst (asm) digits.simps, subst (asm) (2) digits.simps) (simp add: digitChar_inj)
    next
      case False
      have "length (digits m) \<ge> 2"
        using False digits_nonempty [of "m div 10"]
        by (subst digits.simps) (simp add: Suc_le_eq)
      moreover have "length (digits n) = 1"
        using True by (subst digits.simps) simp
      ultimately show ?thesis using "1.prems" by simp
    qed
  next
    case False
    note n10 = False
    show ?thesis
    proof (cases "m < 10")
      case True
      have "length (digits n) \<ge> 2"
        using n10 digits_nonempty [of "n div 10"]
        by (subst digits.simps) (simp add: Suc_le_eq)
      moreover have "length (digits m) = 1"
        using True by (subst digits.simps) simp
      ultimately show ?thesis using "1.prems" by simp
    next
      case False
      have en: "digits n = digits (n div 10) @ [digitChar (n mod 10)]"
        using n10 by (subst digits.simps) simp
      have em: "digits m = digits (m div 10) @ [digitChar (m mod 10)]"
        using False by (subst digits.simps) simp
      from "1.prems" en em have a: "digits (n div 10) = digits (m div 10)"
        and b: "digitChar (n mod 10) = digitChar (m mod 10)" by simp_all
      from "1.IH" [OF n10 a] have "n div 10 = m div 10" .
      moreover from b have "n mod 10 = m mod 10" by (simp add: digitChar_inj)
      ultimately show ?thesis by (metis div_mult_mod_eq)
    qed
  qed
qed

lemma digits_chars: "c \<in> set (digits n) \<Longrightarrow> 48 \<le> (of_char c :: nat) \<and> (of_char c :: nat) \<le> 57"
proof (induction n rule: digits.induct)
  case (1 n)
  show ?case
  proof (cases "n < 10")
    case True
    with "1.prems" have "c = digitChar n" by (subst (asm) digits.simps) simp
    with True show ?thesis by (simp add: digitChar_code)
  next
    case False
    with "1.prems" have "c \<in> set (digits (n div 10)) \<or> c = digitChar (n mod 10)"
      by (subst (asm) digits.simps) auto
    then show ?thesis
    proof
      assume "c \<in> set (digits (n div 10))"
      with "1.IH" False show ?thesis by simp
    next
      assume "c = digitChar (n mod 10)"
      then show ?thesis by (simp add: digitChar_code)
    qed
  qed
qed

lemma numberToString_inj: "numberToString i = numberToString j \<Longrightarrow> i = j"
proof -
  assume e: "numberToString i = numberToString j"
  have nodash: "\<And>n. hd (digits n) \<noteq> CHR ''-''"
  proof
    fix n assume h: "hd (digits n) = CHR ''-''"
    have "hd (digits n) \<in> set (digits n)" using digits_nonempty by simp
    from digits_chars [OF this] h show False by simp
  qed
  show ?thesis
  proof (cases "i < 0")
    case True
    show ?thesis
    proof (cases "j < 0")
      case True
      with \<open>i < 0\<close> e have "digits (nat (- i)) = digits (nat (- j))"
        by (simp add: numberToString_def)
      from digits_inj [OF this] True \<open>i < 0\<close> show ?thesis by simp
    next
      case False
      with True e have "CHR ''-'' # digits (nat (- i)) = digits (nat j)"
        by (simp add: numberToString_def)
      then have "hd (digits (nat j)) = CHR ''-''" by (metis list.sel(1))
      with nodash show ?thesis by blast
    qed
  next
    case False
    show ?thesis
    proof (cases "j < 0")
      case True
      with False e have "digits (nat i) = CHR ''-'' # digits (nat (- j))"
        by (simp add: numberToString_def)
      then have "hd (digits (nat i)) = CHR ''-''" by (metis list.sel(1))
      with nodash show ?thesis by blast
    next
      case f2: False
      with False e have "digits (nat i) = digits (nat j)"
        by (simp add: numberToString_def)
      from digits_inj [OF this] False f2 show ?thesis by simp
    qed
  qed
qed

lemma numberToString_no_underscore: "CHR ''_'' \<notin> set (numberToString i)"
proof
  assume "CHR ''_'' \<in> set (numberToString i)"
  then have "CHR ''_'' \<in> set (digits (nat (- i))) \<or> CHR ''_'' \<in> set (digits (nat i))"
    by (auto simp: numberToString_def split: if_splits)
  then show False using digits_chars [of "CHR ''_''"] by auto
qed

lemma toLowerCase_char_underscore: "(toLowerCase_char c = CHR ''_'') = (c = CHR ''_'')"
proof
  assume h: "toLowerCase_char c = CHR ''_''"
  have "(of_char (toLowerCase_char c) :: nat) = 95" using h by simp
  then have "(of_char c :: nat) = 95"
    by (simp add: of_char_toLowerCase_char isUpper_def split: if_splits)
  then have "(of_char c :: nat) = of_char (CHR ''_'')" by simp
  then show "c = CHR ''_''" by (simp only: of_char_eq_iff)
next
  assume "c = CHR ''_''"
  then show "toLowerCase_char c = CHR ''_''"
    by (simp add: toLowerCase_char_def isUpper_def)
qed

lemma toLowerCase_char_fixed:
  "\<not> isUpper (of_char c) \<Longrightarrow> toLowerCase_char c = c"
  by (simp add: toLowerCase_char_def)

lemma toLowerCase_fixed:
  "\<forall>c \<in> set s. \<not> isUpper (of_char c) \<Longrightarrow> toLowerCase s = s"
  by (induction s) (simp_all add: toLowerCase_def toLowerCase_char_fixed)

lemma toLowerCase_digits: "toLowerCase (digits n) = digits n"
proof (rule toLowerCase_fixed, rule ballI)
  fix c assume "c \<in> set (digits n)"
  from digits_chars [OF this] show "\<not> isUpper (of_char c)" by (simp add: isUpper_def)
qed

lemma toLowerCase_numberToString: "toLowerCase (numberToString i) = numberToString i"
proof (rule toLowerCase_fixed, rule ballI)
  fix c assume "c \<in> set (numberToString i)"
  then have "c = CHR ''-'' \<or> c \<in> set (digits (nat (- i))) \<or> c \<in> set (digits (nat i))"
    by (auto simp: numberToString_def split: if_splits)
  then show "\<not> isUpper (of_char c)"
    using digits_chars [of c] by (auto simp: isUpper_def)
qed

lemma toLowerCase_append: "toLowerCase (a @ b) = toLowerCase a @ toLowerCase b"
  by (simp add: toLowerCase_def)

lemma toLowerCase_Nil: "toLowerCase [] = []"
  by (simp add: toLowerCase_def)

lemma takeWhile_to_underscore:
  "CHR ''_'' \<notin> set p \<Longrightarrow> takeWhile (\<lambda>c. c \<noteq> CHR ''_'') (p @ CHR ''_'' # q) = p"
  by (induction p) auto

lemma toLowerCase_Cons: "toLowerCase (c # r) = toLowerCase_char c # toLowerCase r"
  by (simp add: toLowerCase_def)

text \<open>Splitting at the first underscore.\<close>

lemma split_at_underscore:
  assumes "a @ CHR ''_'' # x = b @ CHR ''_'' # y"
    and "CHR ''_'' \<notin> set a" and "CHR ''_'' \<notin> set b"
  shows "a = b"
proof -
  note tw = takeWhile_to_underscore
  have "takeWhile (\<lambda>c. c \<noteq> CHR ''_'') (a @ CHR ''_'' # x) = a"
    using assms(2) by (rule tw)
  moreover have "takeWhile (\<lambda>c. c \<noteq> CHR ''_'') (b @ CHR ''_'' # y) = b"
    using assms(3) by (rule tw)
  ultimately show ?thesis using assms(1) by simp
qed

lemma trackedKey_eq_orderIndex:
  assumes "trackedKey dir a = trackedKey dir b"
  shows "orderIndex a = orderIndex b"
proof -
  let ?ra = "sanitizeFileName (title a) @ ''.'' @ getFileExtension (languageOf a)"
  let ?rb = "sanitizeFileName (title b) @ ''.'' @ getFileExtension (languageOf b)"
  have key: "\<And>s. trackedKey dir s = toLowerCase (dir @ ''/exercise_'')
      @ numberToString (orderIndex s) @ CHR ''_'' # toLowerCase
         (sanitizeFileName (title s) @ ''.'' @ getFileExtension (languageOf s))"
    by (simp add: trackedKey_def exercisePath_def path_join_def fileName_def
        toLowerCase_append toLowerCase_numberToString toLowerCase_Cons toLowerCase_Nil
        toLowerCase_char_underscore)
  note ka = key [of a] and kb = key [of b]
  from assms ka kb have
    "numberToString (orderIndex a) @ CHR ''_'' # toLowerCase ?ra
      = numberToString (orderIndex b) @ CHR ''_'' # toLowerCase ?rb"
    by simp
  then have "numberToString (orderIndex a) = numberToString (orderIndex b)"
    by (rule split_at_underscore) (rule numberToString_no_underscore)+
  then show ?thesis by (rule numberToString_inj)
qed

lemma fileName_eq_orderIndex:
  assumes "fileName a = fileName b"
  shows "orderIndex a = orderIndex b"
proof -
  from assms have "trackedKey [] a = trackedKey [] b"
    by (simp add: trackedKey_def exercisePath_def path_join_def)
  then show ?thesis by (rule trackedKey_eq_orderIndex)
qed

subsection \<open>The slug\<close>

lemma underscore_not_alnum: "\<not> isAlnum (CHR ''_'')"
  by (simp add: isAlnum_def)

lemma replaceRuns_chars: "c \<in> set (replaceRuns s) \<Longrightarrow> isAlnum c \<or> c = CHR ''_''"
  by (induction s rule: replaceRuns.induct) (auto split: if_splits)

lemma replaceRuns_filter: "filter isAlnum (replaceRuns s) = filter isAlnum s"
proof (induction s rule: replaceRuns.induct)
  case 1
  show ?case by simp
next
  case (2 c cs)
  show ?case
  proof (cases "isAlnum c")
    case True
    with 2 show ?thesis by simp
  next
    case False
    have "filter isAlnum cs = filter isAlnum (dropWhile (\<lambda>d. \<not> isAlnum d) cs)"
      by (induction cs) auto
    with 2 False show ?thesis by (simp add: underscore_not_alnum)
  qed
qed

lemma replaceRuns_head:
  "s \<noteq> [] \<Longrightarrow> isAlnum (hd s) \<Longrightarrow> replaceRuns s \<noteq> [] \<and> hd (replaceRuns s) = hd s"
  by (cases s) auto

lemma replaceRuns_after_run:
  "replaceRuns (dropWhile (\<lambda>d. \<not> isAlnum d) cs) = [] \<or>
   hd (replaceRuns (dropWhile (\<lambda>d. \<not> isAlnum d) cs)) \<noteq> CHR ''_''"
proof (cases "dropWhile (\<lambda>d. \<not> isAlnum d) cs = []")
  case True
  show ?thesis unfolding True by simp
next
  case False
  from hd_dropWhile [OF this] have al: "isAlnum (hd (dropWhile (\<lambda>d. \<not> isAlnum d) cs))" by simp
  from replaceRuns_head [OF False al]
  have "hd (replaceRuns (dropWhile (\<lambda>d. \<not> isAlnum d) cs)) = hd (dropWhile (\<lambda>d. \<not> isAlnum d) cs)"
    by simp
  with al underscore_not_alnum show ?thesis by auto
qed

lemma hasDouble_Cons:
  "hasDoubleUnderscore (a # r) =
     ((a = CHR ''_'' \<and> r \<noteq> [] \<and> hd r = CHR ''_'') \<or> hasDoubleUnderscore r)"
  by (cases r) auto

lemma replaceRuns_single: "\<not> hasDoubleUnderscore (replaceRuns s)"
proof (induction s rule: replaceRuns.induct)
  case 1
  show ?case by simp
next
  case (2 c cs)
  show ?case
  proof (cases "isAlnum c")
    case True
    with 2 underscore_not_alnum show ?thesis by (auto simp: hasDouble_Cons)
  next
    case False
    with 2 replaceRuns_after_run [of cs] show ?thesis by (auto simp: hasDouble_Cons)
  qed
qed

lemma hasDouble_suffix: "hasDoubleUnderscore t \<Longrightarrow> hasDoubleUnderscore (p @ t)"
  by (induction p) (auto simp: hasDouble_Cons)

lemma hasDouble_prefix: "hasDoubleUnderscore t \<Longrightarrow> hasDoubleUnderscore (t @ q)"
  by (induction t rule: hasDoubleUnderscore.induct) (auto split: if_splits)

lemma rev_split: "xs = rev (dropWhile P (rev xs)) @ rev (takeWhile P (rev xs))"
  by (metis rev_append rev_rev_ident takeWhile_dropWhile_id)

lemma trim_decompose:
  "\<exists>p q. s = p @ trimUnderscores s @ q \<and> set p \<subseteq> {CHR ''_''} \<and> set q \<subseteq> {CHR ''_''}"
proof -
  let ?P = "\<lambda>c. c = CHR ''_''"
  let ?m = "dropWhile ?P s"
  have a: "s = takeWhile ?P s @ ?m" by simp
  have b: "?m = trimUnderscores s @ rev (takeWhile ?P (rev ?m))"
    unfolding trimUnderscores_def by (rule rev_split)
  have "s = takeWhile ?P s @ trimUnderscores s @ rev (takeWhile ?P (rev ?m))"
    by (subst b [symmetric]) simp
  moreover have "set (takeWhile ?P s) \<subseteq> {CHR ''_''}"
    using set_takeWhileD by fastforce
  moreover have "set (rev (takeWhile ?P (rev ?m))) \<subseteq> {CHR ''_''}"
    using set_takeWhileD by fastforce
  ultimately show ?thesis by blast
qed

lemma trim_single: "\<not> hasDoubleUnderscore s \<Longrightarrow> \<not> hasDoubleUnderscore (trimUnderscores s)"
proof
  assume n: "\<not> hasDoubleUnderscore s" and h: "hasDoubleUnderscore (trimUnderscores s)"
  obtain p q where d: "p @ trimUnderscores s @ q = s" using trim_decompose by metis
  from h have "hasDoubleUnderscore (trimUnderscores s @ q)" by (rule hasDouble_prefix)
  then have "hasDoubleUnderscore (p @ trimUnderscores s @ q)" by (rule hasDouble_suffix)
  with n show False by (simp only: d)
qed

lemma trim_filter: "filter isAlnum (trimUnderscores s) = filter isAlnum s"
proof -
  obtain p q where d: "p @ trimUnderscores s @ q = s"
    and p: "set p \<subseteq> {CHR ''_''}" and q: "set q \<subseteq> {CHR ''_''}"
    using trim_decompose by metis
  have "filter isAlnum p = []" using p underscore_not_alnum by (auto simp: filter_empty_conv)
  moreover have "filter isAlnum q = []" using q underscore_not_alnum by (auto simp: filter_empty_conv)
  ultimately have "filter isAlnum (p @ trimUnderscores s @ q) = filter isAlnum (trimUnderscores s)"
    by simp
  then show ?thesis by (simp only: d)
qed

lemma trim_chars: "set (trimUnderscores s) \<subseteq> set s"
proof -
  obtain p q where d: "p @ trimUnderscores s @ q = s" using trim_decompose by metis
  have "set (trimUnderscores s) \<subseteq> set (p @ trimUnderscores s @ q)" by auto
  then show ?thesis by (simp only: d)
qed

lemma trim_ends:
  assumes ne: "trimUnderscores s \<noteq> []"
  shows "hd (trimUnderscores s) \<noteq> CHR ''_'' \<and> last (trimUnderscores s) \<noteq> CHR ''_''"
proof -
  define P where "P = (\<lambda>c. c = CHR ''_'')"
  define m where "m = dropWhile P s"
  define t where "t = dropWhile P (rev m)"
  have tr: "trimUnderscores s = rev t"
    by (simp only: trimUnderscores_def t_def m_def P_def)
  from ne tr have tne: "t \<noteq> []" by simp
  have "\<not> P (hd t)" unfolding t_def using tne [unfolded t_def] by (rule hd_dropWhile)
  moreover have "last (rev t) = hd t" using tne by (simp only: last_rev)
  ultimately have "\<not> P (last (rev t))" by simp
  then have l: "last (trimUnderscores s) \<noteq> CHR ''_''"
    unfolding tr P_def .
  have ms: "m = rev t @ rev (takeWhile P (rev m))"
    unfolding t_def by (rule rev_split)
  have rne: "rev t \<noteq> []" using tne by simp
  have "hd (rev t @ rev (takeWhile P (rev m))) = hd (rev t)"
    using rne by (rule hd_append2)
  then have hm: "hd m = hd (rev t)" using ms by simp
  have mne: "m \<noteq> []" using ms rne by (metis append_is_Nil_conv)
  have "\<not> P (hd m)" unfolding m_def using mne [unfolded m_def] by (rule hd_dropWhile)
  then have "\<not> P (hd (rev t))" unfolding hm .
  then have "hd (trimUnderscores s) \<noteq> CHR ''_''"
    unfolding tr P_def .
  with l show ?thesis by simp
qed

lemma sanitize_chars:
  "c \<in> set (sanitizeFileName t) \<Longrightarrow> isAlnum c \<or> c = CHR ''_''"
  using trim_chars replaceRuns_chars unfolding sanitizeFileName_def by blast

lemma sanitize_filter:
  "filter isAlnum (sanitizeFileName t) = filter isAlnum (toLowerCase t)"
  by (simp add: sanitizeFileName_def trim_filter replaceRuns_filter)

lemma sanitize_single: "\<not> hasDoubleUnderscore (sanitizeFileName t)"
  by (simp add: sanitizeFileName_def trim_single replaceRuns_single)

lemma sanitize_ends:
  "sanitizeFileName t \<noteq> [] \<Longrightarrow>
     hd (sanitizeFileName t) \<noteq> CHR ''_'' \<and> last (sanitizeFileName t) \<noteq> CHR ''_''"
  unfolding sanitizeFileName_def by (rule trim_ends)

subsection \<open>The format in the words of the specification\<close>

lemma isAlnum_spec: "isAlnum c = spec_alnum c"
  by (auto simp: isAlnum_def spec_alnum_def less_eq_char_def)

lemma spec_alnum_fun: "spec_alnum = isAlnum"
  by (rule ext) (simp add: isAlnum_spec)

lemmas spec_words_induct = spec_words.induct [unfolded spec_alnum_fun]

lemma spec_words_unfold [simp]:
  "spec_words (c # cs) =
     (if isAlnum c then (c # takeWhile isAlnum cs) # spec_words (dropWhile isAlnum cs)
      else spec_words cs)"
  by (simp add: spec_alnum_fun)

declare spec_words.simps(2) [simp del]

lemma upper_alphabet:
  "toLowerCase ''ABCDEFGHIJKLMNOPQRSTUVWXYZ'' = ''abcdefghijklmnopqrstuvwxyz''"
  by (simp add: toLowerCase_def toLowerCase_char_def isUpper_def char_of_def bit_Suc_0_iff)

lemma lower_fixed: "spec_alnum c \<Longrightarrow> toLowerCase_char c = c"
  by (rule toLowerCase_char_fixed) (auto simp: isAlnum_spec [symmetric] isAlnum_def isUpper_def split: if_splits)

lemma ext_of_language: "getFileExtension (languageOf sec) = spec_ext (language sec)"
proof (cases "language sec")
  case None
  then show ?thesis
    by (simp add: spec_ext_def languageOf_def getFileExtension_def extensions_def
        toLowerCase_def toLowerCase_char_def isUpper_def)
next
  case (Some x)
  show ?thesis
  proof (cases "x = []")
    case True
    with Some show ?thesis
      by (simp add: spec_ext_def languageOf_def getFileExtension_def extensions_def
          toLowerCase_def toLowerCase_char_def isUpper_def)
  next
    case False
    with Some show ?thesis
      by (auto simp: spec_ext_def languageOf_def getFileExtension_def extensions_def)
  qed
qed

lemma decimal_append: "decimal_value (xs @ [c]) = 10 * decimal_value xs + (of_char c - 48)"
  by (simp add: decimal_value_def)

lemma decimal_digits: "decimal_value (digits n) = n"
proof (induction n rule: digits.induct)
  case (1 n)
  show ?case
  proof (cases "n < 10")
    case True
    then show ?thesis
      by (subst digits.simps) (simp add: decimal_value_def digitChar_code)
  next
    case False
    have "decimal_value (digits n)
        = 10 * decimal_value (digits (n div 10)) + (of_char (digitChar (n mod 10)) - 48)"
      using False by (subst digits.simps) (simp add: decimal_append)
    also have "\<dots> = 10 * (n div 10) + n mod 10"
      using "1.IH" [OF False] by (simp add: digitChar_code)
    finally show ?thesis by simp
  qed
qed

lemma numberToString_value:
  "numberToString i = (if i < 0 then CHR ''-'' # numberToString (- i) else numberToString i)
   \<and> (0 \<le> i \<longrightarrow> decimal_value (numberToString i) = nat i)"
  by (simp add: numberToString_def decimal_digits)

lemma trim_as_trimEnd: "trimUnderscores s = trimEnd (dropWhile (\<lambda>c. c = CHR ''_'') s)"
  by (simp add: trimUnderscores_def trimEnd_def)

lemma trimEnd_append:
  "trimEnd (a @ b) = (if trimEnd b = [] then trimEnd a else a @ trimEnd b)"
  by (auto simp: trimEnd_def dropWhile_append)

lemma trimEnd_Cons:
  "trimEnd (c # b) = (if trimEnd b = [] then trimEnd [c] else c # trimEnd b)"
  using trimEnd_append [of "[c]" b] by simp

lemma trimEnd_clean: "CHR ''_'' \<notin> set w \<Longrightarrow> trimEnd w = w"
proof -
  assume n: "CHR ''_'' \<notin> set w"
  have "dropWhile (\<lambda>c. c = CHR ''_'') (rev w) = rev w"
  proof (cases "rev w")
    case Nil
    then show ?thesis by simp
  next
    case (Cons x xs)
    then have "x \<in> set w" by (metis list.set_intros(1) set_rev)
    with n have "x \<noteq> CHR ''_''" by auto
    with Cons show ?thesis by simp
  qed
  then show ?thesis by (simp add: trimEnd_def)
qed

lemma replaceRuns_copy:
  "\<forall>c \<in> set a. isAlnum c \<Longrightarrow> replaceRuns (a @ r) = a @ replaceRuns r"
  by (induction a) simp_all

lemma replaceRuns_headed:
  assumes "d = [] \<or> isAlnum (hd d)"
  shows "dropWhile (\<lambda>c. c = CHR ''_'') (replaceRuns d) = replaceRuns d"
proof (cases d)
  case Nil
  then show ?thesis by simp
next
  case (Cons c cs)
  with assms have "isAlnum c" by simp
  then have "c \<noteq> CHR ''_''" using underscore_not_alnum by auto
  with Cons \<open>isAlnum c\<close> show ?thesis by simp
qed

lemma dropped_headed:
  "dropWhile (\<lambda>d. \<not> isAlnum d) cs = [] \<or> isAlnum (hd (dropWhile (\<lambda>d. \<not> isAlnum d) cs))"
  using hd_dropWhile [of "\<lambda>d. \<not> isAlnum d" cs] by auto

lemma replaceRuns_leading:
  "dropWhile (\<lambda>c. c = CHR ''_'') (replaceRuns s) = replaceRuns (dropWhile (\<lambda>d. \<not> isAlnum d) s)"
proof (cases s)
  case Nil
  then show ?thesis by simp
next
  case (Cons c cs)
  show ?thesis
  proof (cases "isAlnum c")
    case True
    with Cons replaceRuns_headed [of s] show ?thesis by simp
  next
    case False
    with Cons replaceRuns_headed [OF dropped_headed, of cs] show ?thesis by simp
  qed
qed

lemma trim_replaceRuns:
  "trimUnderscores (replaceRuns s) = trimEnd (replaceRuns (dropWhile (\<lambda>d. \<not> isAlnum d) s))"
  by (simp add: trim_as_trimEnd replaceRuns_leading)

lemma trimEnd_after_run:
  assumes "r = [] \<or> \<not> isAlnum (hd r)"
  shows "trimEnd (replaceRuns r)
     = (if trimUnderscores (replaceRuns r) = [] then []
        else CHR ''_'' # trimUnderscores (replaceRuns r))"
proof (cases r)
  case Nil
  then show ?thesis by (simp add: trimEnd_def trimUnderscores_def)
next
  case (Cons c cs)
  with assms have nc: "\<not> isAlnum c" by simp
  let ?y = "replaceRuns (dropWhile (\<lambda>d. \<not> isAlnum d) cs)"
  have r: "replaceRuns r = CHR ''_'' # ?y" using Cons nc by simp
  have y: "dropWhile (\<lambda>c. c = CHR ''_'') ?y = ?y"
    by (rule replaceRuns_headed [OF dropped_headed])
  have "trimUnderscores (CHR ''_'' # ?y) = trimEnd (dropWhile (\<lambda>c. c = CHR ''_'') ?y)"
    by (simp add: trim_as_trimEnd)
  then have t: "trimUnderscores (CHR ''_'' # ?y) = trimEnd ?y" by (simp only: y)
  have e1: "trimEnd [CHR ''_''] = []" unfolding trimEnd_def by simp
  have e2: "trimEnd (CHR ''_'' # ?y) = (if trimEnd ?y = [] then [] else CHR ''_'' # trimEnd ?y)"
    by (simp only: trimEnd_Cons [of "CHR ''_''" ?y] e1)
  show ?thesis by (simp only: r t e2)
qed

lemma spec_words_nonempty: "w \<in> set (spec_words s) \<Longrightarrow> w \<noteq> []"
  by (induction s rule: spec_words_induct) (auto split: if_splits)

lemma join_empty: "join_underscore (spec_words s) = [] \<longleftrightarrow> spec_words s = []"
proof (cases "spec_words s")
  case Nil
  then show ?thesis by simp
next
  case (Cons w ws)
  then have "w \<noteq> []" using spec_words_nonempty [of w s] by simp
  with Cons show ?thesis by (cases ws) simp_all
qed

lemma join_Cons:
  "join_underscore (w # ws) = (if ws = [] then w else w @ CHR ''_'' # join_underscore ws)"
  by (cases ws) simp_all

lemma spec_words_skip: "spec_words (dropWhile (\<lambda>d. \<not> isAlnum d) s) = spec_words s"
  by (induction s) simp_all

lemma slug_words: "trimUnderscores (replaceRuns s) = join_underscore (spec_words s)"
proof (induction s rule: spec_words_induct)
  case 1
  show ?case by (simp add: trimUnderscores_def)
next
  case (2 c cs)
  show ?case
  proof (cases "isAlnum c")
    case True
    let ?w = "c # takeWhile isAlnum cs"
    let ?r = "dropWhile isAlnum cs"
    have split: "c # cs = ?w @ ?r" by simp
    have al: "\<forall>x \<in> set ?w. isAlnum x" using True by (auto dest: set_takeWhileD)
    have clean: "CHR ''_'' \<notin> set ?w" using al underscore_not_alnum by blast
    have rr: "replaceRuns (c # cs) = ?w @ replaceRuns ?r"
      using replaceRuns_copy [OF al, of ?r] by (simp only: split [symmetric])
    have lead: "dropWhile (\<lambda>c. c = CHR ''_'') (?w @ replaceRuns ?r) = ?w @ replaceRuns ?r"
      using True underscore_not_alnum by auto
    have hr: "?r = [] \<or> \<not> isAlnum (hd ?r)"
      using hd_dropWhile [of isAlnum cs] by auto
    have ih: "trimUnderscores (replaceRuns ?r) = join_underscore (spec_words ?r)"
      using "2.IH"(1) [OF True] .
    have "trimUnderscores (replaceRuns (c # cs)) = trimEnd (?w @ replaceRuns ?r)"
      by (simp only: rr trim_as_trimEnd lead)
    also have "\<dots> = (if trimEnd (replaceRuns ?r) = [] then ?w else ?w @ trimEnd (replaceRuns ?r))"
      by (simp only: trimEnd_append trimEnd_clean [OF clean])
    also have "\<dots> = (if spec_words ?r = [] then ?w
                       else ?w @ CHR ''_'' # join_underscore (spec_words ?r))"
      by (simp add: trimEnd_after_run [OF hr] ih join_empty)
    also have "\<dots> = join_underscore (spec_words (c # cs))"
      using True by (simp add: join_Cons)
    finally show ?thesis .
  next
    case False
    have "trimUnderscores (replaceRuns (c # cs))
        = trimEnd (replaceRuns (dropWhile (\<lambda>d. \<not> isAlnum d) cs))"
      using False by (simp only: trim_replaceRuns) simp
    also have "\<dots> = trimUnderscores (replaceRuns cs)" by (simp only: trim_replaceRuns)
    also have "\<dots> = join_underscore (spec_words cs)" using "2.IH"(2) [OF False] .
    finally show ?thesis using False by simp
  qed
qed

lemma sanitize_is_slug: "sanitizeFileName t = spec_slug t"
  by (simp add: sanitizeFileName_def spec_slug_def slug_words)

subsection \<open>Evaluating the derivation on concrete exercises\<close>

lemmas eval_simps =
  sanitizeFileName_def trimUnderscores_def toLowerCase_def toLowerCase_char_def isUpper_def
  isAlnum_def char_of_def bit_Suc_0_iff fileName_def exercisePath_def path_join_def
  numberToString_def digits.simps digitChar_def getFileExtension_def extensions_def
  languageOf_def getCommentSyntax_def syntax_table_def getDefaultBoilerplate_def
  trackedKey_def

lemma loops_fileName: "fileName loops_section = ''exercise_3_intro_to_loops.py''"
  by (simp add: loops_section_def eval_simps)

lemma loops_exercisePath:
  "exercisePath dir loops_section = dir @ ''/exercise_3_intro_to_loops.py''"
  by (simp add: exercisePath_def path_join_def loops_fileName)

lemma hello_fields:
  "title hello_section = ''  Hello, World  ''" "orderIndex hello_section = 12"
  "language hello_section = Some ''Java''"
  by (simp_all add: hello_section_def)

lemma loops_raw:
  "title loops_section = ''Intro to Loops!!''" "orderIndex loops_section = 3"
  "language loops_section = Some ''python''"
  by (simp_all add: loops_section_def)

lemmas spec_eval =
  spec_slug_def spec_ext_def toLowerCase_def toLowerCase_char_def isUpper_def isAlnum_def
  char_of_def bit_Suc_0_iff numberToString_def digits.simps digitChar_def decimal_value_def

text \<open>
  C7. The derived file name is \<open>exercise_{orderIndex}_{slug(title)}.{ext(language)}\<close>: the
  order index in decimal; the slug, which is the runs of \<open>[a-z0-9]\<close> of the lower-cased
  title joined by single underscores (so it holds only characters of \<open>[a-z0-9_]\<close>, never
  two underscores in a row, no underscore at either end, and exactly the alphanumeric
  characters of the lower-cased title in their order); and the extension of the language
  as stored in the identity. Name, path and tracked key are functions of the section, and
  two sections that differ in \<open>orderIndex\<close> differ in all three (within one exercises
  directory).
\<close>

theorem path_derivation:
  "fileName a = ''exercise_'' @ numberToString (orderIndex a) @ ''_''
                  @ spec_slug (title a) @ ''.'' @ spec_ext (language a)
   \<and> sanitizeFileName (title a) = spec_slug (title a)
   \<and> getFileExtension (languageOf a) = spec_ext (language a)
   \<and> (0 \<le> orderIndex a \<longrightarrow>
        decimal_value (numberToString (orderIndex a)) = nat (orderIndex a))
   \<and> (orderIndex a < 0 \<longrightarrow>
        numberToString (orderIndex a) = CHR ''-'' # numberToString (- orderIndex a))
   \<and> toLowerCase ''ABCDEFGHIJKLMNOPQRSTUVWXYZ'' = ''abcdefghijklmnopqrstuvwxyz''
   \<and> (\<forall>c \<in> set (title a). spec_alnum c \<longrightarrow> toLowerCase_char c = c)
   \<and> (\<forall>c \<in> set (sanitizeFileName (title a)). spec_alnum c \<or> c = CHR ''_'')
   \<and> \<not> hasDoubleUnderscore (sanitizeFileName (title a))
   \<and> (sanitizeFileName (title a) \<noteq> [] \<longrightarrow>
        hd (sanitizeFileName (title a)) \<noteq> CHR ''_''
        \<and> last (sanitizeFileName (title a)) \<noteq> CHR ''_'')
   \<and> filter spec_alnum (sanitizeFileName (title a)) = filter spec_alnum (toLowerCase (title a))
   \<and> (orderIndex a \<noteq> orderIndex b \<longrightarrow>
        fileName a \<noteq> fileName b
        \<and> exercisePath dir a \<noteq> exercisePath dir b
        \<and> trackedKey dir a \<noteq> trackedKey dir b)"
proof -
  have inj: "orderIndex a \<noteq> orderIndex b \<Longrightarrow>
      fileName a \<noteq> fileName b \<and> exercisePath dir a \<noteq> exercisePath dir b
      \<and> trackedKey dir a \<noteq> trackedKey dir b"
  proof -
    assume d: "orderIndex a \<noteq> orderIndex b"
    then have f: "fileName a \<noteq> fileName b" using fileName_eq_orderIndex by blast
    then have "exercisePath dir a \<noteq> exercisePath dir b"
      by (simp add: exercisePath_def path_join_def)
    moreover have "trackedKey dir a \<noteq> trackedKey dir b"
      using d trackedKey_eq_orderIndex by blast
    ultimately show ?thesis using f by simp
  qed
  have name: "fileName a = ''exercise_'' @ numberToString (orderIndex a) @ ''_''
                  @ spec_slug (title a) @ ''.'' @ spec_ext (language a)"
    by (simp add: fileName_def sanitize_is_slug ext_of_language)
  have num: "(0 \<le> orderIndex a \<longrightarrow>
        decimal_value (numberToString (orderIndex a)) = nat (orderIndex a))
      \<and> (orderIndex a < 0 \<longrightarrow>
        numberToString (orderIndex a) = CHR ''-'' # numberToString (- orderIndex a))"
    by (simp add: numberToString_def decimal_digits)
  have low: "\<forall>c \<in> set (title a). spec_alnum c \<longrightarrow> toLowerCase_char c = c"
    using lower_fixed by blast
  have chars: "\<forall>c \<in> set (sanitizeFileName (title a)). spec_alnum c \<or> c = CHR ''_''"
    using sanitize_chars by (auto simp: isAlnum_spec [symmetric])
  have filt: "filter spec_alnum (sanitizeFileName (title a))
      = filter spec_alnum (toLowerCase (title a))"
    using sanitize_filter [of "title a"] by (simp only: spec_alnum_fun)
  have ends: "sanitizeFileName (title a) \<noteq> [] \<longrightarrow>
        hd (sanitizeFileName (title a)) \<noteq> CHR ''_''
        \<and> last (sanitizeFileName (title a)) \<noteq> CHR ''_''"
    using sanitize_ends [of "title a"] by blast
  show ?thesis
    using name sanitize_is_slug [of "title a"] ext_of_language [of a] num upper_alphabet low
      chars sanitize_single [of "title a"] ends filt inj
    by (intro conjI) (blast+)
qed

text \<open>
  Three identities: python at index 3; \<open>Java\<close> at index 12 with blanks and a comma around
  the words of its title; and the same with a language that has no extension of its own.
\<close>

theorem path_derivation_witness:
  "orderIndex loops_section \<noteq> orderIndex hello_section
   \<and> 0 \<le> orderIndex hello_section
   \<and> decimal_value (numberToString (orderIndex hello_section)) = 12
   \<and> sanitizeFileName (title loops_section) = ''intro_to_loops''
   \<and> sanitizeFileName (title hello_section) = ''hello_world''
   \<and> fileName loops_section = ''exercise_3_intro_to_loops.py''
   \<and> fileName hello_section = ''exercise_12_hello_world.java''
   \<and> fileName (hello_section\<lparr>language := Some ''Rust''\<rparr>) = ''exercise_12_hello_world.txt''
   \<and> fileName (hello_section\<lparr>language := None\<rparr>) = ''exercise_12_hello_world.py''
   \<and> trackedKey ''/w/exercises'' loops_section \<noteq> trackedKey ''/w/exercises'' hello_section"
proof -
  note l = path_derivation [of loops_section hello_section "''/w/exercises''"]
  note h = path_derivation [of hello_section loops_section "''/w/exercises''"]
  note r = path_derivation [of "hello_section\<lparr>language := Some ''Rust''\<rparr>" loops_section
      "''/w/exercises''"]
  note n = path_derivation [of "hello_section\<lparr>language := None\<rparr>" loops_section
      "''/w/exercises''"]
  have d: "orderIndex loops_section \<noteq> orderIndex hello_section"
    by (simp add: loops_raw hello_fields)
  have p: "0 \<le> orderIndex hello_section" by (simp add: hello_fields)
  from l d have k: "trackedKey ''/w/exercises'' loops_section
      \<noteq> trackedKey ''/w/exercises'' hello_section" by blast
  from h p have v: "decimal_value (numberToString (orderIndex hello_section)) = 12"
    by (simp add: hello_fields)
  have sl: "spec_slug ''Intro to Loops!!'' = ''intro_to_loops''"
    by (simp add: spec_eval)
  have sh: "spec_slug ''  Hello, World  '' = ''hello_world''"
    by (simp add: spec_eval)
  from l have s1: "sanitizeFileName (title loops_section) = ''intro_to_loops''"
    by (simp add: loops_raw sl)
  from h have s2: "sanitizeFileName (title hello_section) = ''hello_world''"
    by (simp add: hello_fields sh)
  from l have f1: "fileName loops_section = ''exercise_3_intro_to_loops.py''"
    by (simp add: loops_raw sl) (simp add: spec_eval)
  from h have f2: "fileName hello_section = ''exercise_12_hello_world.java''"
    by (simp add: hello_fields sh) (simp add: spec_eval)
  from r have f3: "fileName (hello_section\<lparr>language := Some ''Rust''\<rparr>)
      = ''exercise_12_hello_world.txt''"
    by (simp add: hello_fields sh) (simp add: spec_eval)
  from n have f4: "fileName (hello_section\<lparr>language := None\<rparr>)
      = ''exercise_12_hello_world.py''"
    by (simp add: hello_fields sh) (simp add: spec_eval)
  show ?thesis using d p v s1 s2 f1 f2 f3 f4 k by simp
qed

section \<open>Facts about materialisation\<close>

lemma fetched_None: "noRemoteRecord docs sec uid \<Longrightarrow> fetchedAnswer docs sec uid = None"
  by (cases uid) (simp_all add: noRemoteRecord_def fetchedAnswer_def)

text \<open>
  C1 (as amended). For a signed-in user (a non-empty user id) whose stored answer for the
  section has non-empty content \<open>C\<close>, materialising the exercise writes exactly \<open>C\<close> to the
  derived path, whatever the workspace held there before, and logs the pull.
\<close>

theorem materialize_pull:
  assumes "u \<noteq> []"
    and "getStudentAnswer docs (id_s sec) u = Some r"
    and "answer r \<noteq> []"
  shows "createExerciseFile sec dir (Some u) docs fs
           = (fs(exercisePath dir sec \<mapsto> answer r), SyncedFromRemote)"
  using assms by (simp add: createExerciseFile_def fetchedAnswer_def)

text \<open>
  The scenario of the specification: the stored answer is \<open>print(1)\<close>, the local file
  holds half-finished code; afterwards the file holds \<open>print(1)\<close>.
\<close>

theorem materialize_pull_witness:
  "''user-1'' \<noteq> []
   \<and> getStudentAnswer [saved_answer ''print(1)''] (id_s loops_section) ''user-1''
        = Some (saved_answer ''print(1)'')
   \<and> answer (saved_answer ''print(1)'') \<noteq> []
   \<and> fst (createExerciseFile loops_section ''/w/exercises'' (Some ''user-1'')
          [saved_answer ''print(1)'']
          [''/w/exercises/exercise_3_intro_to_loops.py'' \<mapsto> ''for i in''])
        ''/w/exercises/exercise_3_intro_to_loops.py'' = Some ''print(1)''"
  using materialize_pull [of "''user-1''" "[saved_answer ''print(1)'']" loops_section
      "saved_answer ''print(1)''" "''/w/exercises''"
      "[''/w/exercises/exercise_3_intro_to_loops.py'' \<mapsto> ''for i in'']"]
  by (simp add: getStudentAnswer_def matches_def saved_answer_def loops_section_def
      exercisePath_def path_join_def loops_fileName [unfolded loops_section_def])

text \<open>
  The claim as stated fails for a stored answer whose content is the empty string: the
  record exists, the local file holds \<open>x = 1\<close>, and after materialisation it still does.
\<close>

theorem materialize_pull_counterexample:
  "getStudentAnswer [saved_answer []] (id_s loops_section) ''user-1'' = Some (saved_answer [])
   \<and> answer (saved_answer []) = []
   \<and> fst (createExerciseFile loops_section ''/w/exercises'' (Some ''user-1'')
          [saved_answer []]
          [exercisePath ''/w/exercises'' loops_section \<mapsto> ''x = 1''])
        (exercisePath ''/w/exercises'' loops_section) = Some ''x = 1''
   \<and> fst (createExerciseFile loops_section ''/w/exercises'' (Some ''user-1'')
          [saved_answer []]
          [exercisePath ''/w/exercises'' loops_section \<mapsto> ''x = 1''])
        (exercisePath ''/w/exercises'' loops_section) \<noteq> Some (answer (saved_answer []))"
  by (simp add: getStudentAnswer_def matches_def saved_answer_def loops_section_def
      createExerciseFile_def fetchedAnswer_def)

text \<open>
  C9. With a local file at the derived path and no stored answer for the section and the
  user, materialisation returns the workspace as it was; a second materialisation leaves
  it the same again.
\<close>

theorem preserve_local:
  assumes "noRemoteRecord docs sec uid"
    and "fs (exercisePath dir sec) = Some bytes"
  shows "createExerciseFile sec dir uid docs fs = (fs, PreservedLocal)
       \<and> fst (createExerciseFile sec dir uid docs (fst (createExerciseFile sec dir uid docs fs))) = fs
       \<and> fst (createExerciseFile sec dir uid docs fs) (exercisePath dir sec) = Some bytes"
  using assms by (simp add: createExerciseFile_def fetched_None)

theorem preserve_local_witness:
  "noRemoteRecord [] loops_section (Some ''user-1'')
   \<and> [exercisePath ''/w/exercises'' loops_section \<mapsto> ''x = 1'']
        (exercisePath ''/w/exercises'' loops_section) = Some ''x = 1''
   \<and> snd (createExerciseFile loops_section ''/w/exercises'' (Some ''user-1'') []
          [exercisePath ''/w/exercises'' loops_section \<mapsto> ''x = 1'']) = PreservedLocal
   \<and> fst (createExerciseFile loops_section ''/w/exercises'' (Some ''user-1'') []
          [exercisePath ''/w/exercises'' loops_section \<mapsto> ''x = 1''])
        (exercisePath ''/w/exercises'' loops_section) = Some ''x = 1''"
  using preserve_local [of "[]" loops_section "Some ''user-1''"
      "[exercisePath ''/w/exercises'' loops_section \<mapsto> ''x = 1'']" "''/w/exercises''" "''x = 1''"]
  by (simp add: noRemoteRecord_def getStudentAnswer_def)

text \<open>
  C6 (as amended). With no stored answer and no local file, materialisation writes the
  starter value when it is present and not empty, and otherwise the default template: the
  comment token of the language, \<open>Exercise:\<close> and the title, then the TODO line and an
  empty line; the token is \<open>#\<close> for python and \<open>//\<close> for java, csharp, typescript and
  javascript. For the exercise titled \<open>Intro to Loops!!\<close> at \<open>orderIndex\<close> 3 in python
  with no starter, the file is \<open>exercise_3_intro_to_loops.py\<close> with the two comment lines.
\<close>

theorem materialize_starter:
  assumes "noRemoteRecord docs sec uid"
    and "fs (exercisePath dir sec) = None"
  shows "createExerciseFile sec dir uid docs fs
           = (fs(exercisePath dir sec \<mapsto>
                 (case starterValue sec of
                    None \<Rightarrow> getDefaultBoilerplate (languageOf sec) (title sec)
                  | Some v \<Rightarrow> if v = [] then getDefaultBoilerplate (languageOf sec) (title sec)
                              else v)),
              CreatedWithStarter)
       \<and> getDefaultBoilerplate (languageOf sec) (title sec)
           = getCommentSyntax (languageOf sec) @ '' Exercise: '' @ title sec @ [newline]
             @ getCommentSyntax (languageOf sec) @ '' TODO: Implement your solution here''
             @ [newline, newline]
       \<and> getCommentSyntax ''python'' = ''#''
       \<and> getCommentSyntax ''java'' = ''//''
       \<and> getCommentSyntax ''csharp'' = ''//''
       \<and> getCommentSyntax ''typescript'' = ''//''
       \<and> getCommentSyntax ''javascript'' = ''//''
       \<and> (title sec = ''Intro to Loops!!'' \<and> orderIndex sec = 3
            \<and> language sec = Some ''python'' \<and> starterValue sec = None \<longrightarrow>
          createExerciseFile sec dir uid docs fs
            = (fs(dir @ ''/exercise_3_intro_to_loops.py'' \<mapsto>
                  ''# Exercise: Intro to Loops!!'' @ [newline]
                  @ ''# TODO: Implement your solution here'' @ [newline, newline]),
               CreatedWithStarter))"
proof -
  have a: "createExerciseFile sec dir uid docs fs
           = (fs(exercisePath dir sec \<mapsto>
                 (case starterValue sec of
                    None \<Rightarrow> getDefaultBoilerplate (languageOf sec) (title sec)
                  | Some v \<Rightarrow> if v = [] then getDefaultBoilerplate (languageOf sec) (title sec)
                              else v)),
              CreatedWithStarter)"
    using assms
    by (simp add: createExerciseFile_def fetched_None starterContent_def split: option.splits)
  have b: "getCommentSyntax ''python'' = ''#''" "getCommentSyntax ''java'' = ''//''"
    "getCommentSyntax ''csharp'' = ''//''" "getCommentSyntax ''typescript'' = ''//''"
    "getCommentSyntax ''javascript'' = ''//''"
    by (simp_all add: getCommentSyntax_def syntax_table_def toLowerCase_def
        toLowerCase_char_def isUpper_def)
  have c: "createExerciseFile sec dir uid docs fs
            = (fs(dir @ ''/exercise_3_intro_to_loops.py'' \<mapsto>
                  ''# Exercise: Intro to Loops!!'' @ [newline]
                  @ ''# TODO: Implement your solution here'' @ [newline, newline]),
               CreatedWithStarter)"
    if h: "title sec = ''Intro to Loops!!'' \<and> orderIndex sec = 3
            \<and> language sec = Some ''python'' \<and> starterValue sec = None"
  proof -
    have l: "languageOf sec = ''python''" using h by (simp add: languageOf_def)
    have "fileName sec = ''exercise_3_intro_to_loops.py''"
      using h l by (simp add: fileName_def) (simp add: eval_simps)
    then have "exercisePath dir sec = dir @ ''/exercise_3_intro_to_loops.py''"
      by (simp add: exercisePath_def path_join_def)
    with a h l b(1) show ?thesis by (simp add: getDefaultBoilerplate_def)
  qed
  show ?thesis using a b c by (simp add: getDefaultBoilerplate_def)
qed

theorem materialize_starter_witness:
  "noRemoteRecord [] loops_section (Some ''user-1'')
   \<and> (Map.empty :: string \<rightharpoonup> string) (exercisePath ''/w/exercises'' loops_section) = None
   \<and> title loops_section = ''Intro to Loops!!'' \<and> orderIndex loops_section = 3
   \<and> language loops_section = Some ''python'' \<and> starterValue loops_section = None
   \<and> createExerciseFile loops_section ''/w/exercises'' (Some ''user-1'') [] Map.empty
        = ([''/w/exercises/exercise_3_intro_to_loops.py'' \<mapsto>
              ''# Exercise: Intro to Loops!!'' @ [newline]
              @ ''# TODO: Implement your solution here'' @ [newline, newline]],
           CreatedWithStarter)"
proof -
  have h1: "noRemoteRecord [] loops_section (Some ''user-1'')"
    by (simp add: noRemoteRecord_def getStudentAnswer_def)
  have h2: "(Map.empty :: string \<rightharpoonup> string) (exercisePath ''/w/exercises'' loops_section) = None"
    by simp
  have h3: "title loops_section = ''Intro to Loops!!'' \<and> orderIndex loops_section = 3
    \<and> language loops_section = Some ''python'' \<and> starterValue loops_section = None"
    by (simp add: loops_section_def)
  note m = materialize_starter [of "[]" loops_section "Some ''user-1''" Map.empty
      "''/w/exercises''", OF h1 h2]
  from m have "title loops_section = ''Intro to Loops!!'' \<and> orderIndex loops_section = 3
      \<and> language loops_section = Some ''python'' \<and> starterValue loops_section = None
    \<longrightarrow> createExerciseFile loops_section ''/w/exercises'' (Some ''user-1'') [] Map.empty
        = ([''/w/exercises'' @ ''/exercise_3_intro_to_loops.py'' \<mapsto>
              ''# Exercise: Intro to Loops!!'' @ [newline]
              @ ''# TODO: Implement your solution here'' @ [newline, newline]],
           CreatedWithStarter)"
    by (elim conjE)
  with h3 have "createExerciseFile loops_section ''/w/exercises'' (Some ''user-1'') [] Map.empty
        = ([''/w/exercises'' @ ''/exercise_3_intro_to_loops.py'' \<mapsto>
              ''# Exercise: Intro to Loops!!'' @ [newline]
              @ ''# TODO: Implement your solution here'' @ [newline, newline]],
           CreatedWithStarter)"
    by (rule_tac mp)
  with h1 h2 h3 show ?thesis by simp
qed

text \<open>
  The claim as stated fails for a starter value that is present and empty: the template
  is written, not the empty starter.
\<close>

theorem materialize_starter_counterexample:
  "starterValue (loops_section\<lparr>starterValue := Some []\<rparr>) = Some []
   \<and> noRemoteRecord [] (loops_section\<lparr>starterValue := Some []\<rparr>) (Some ''user-1'')
   \<and> fst (createExerciseFile (loops_section\<lparr>starterValue := Some []\<rparr>) ''/w/exercises''
          (Some ''user-1'') [] Map.empty)
        (exercisePath ''/w/exercises'' (loops_section\<lparr>starterValue := Some []\<rparr>))
       = Some (''# Exercise: Intro to Loops!!'' @ [newline]
               @ ''# TODO: Implement your solution here'' @ [newline, newline])
   \<and> fst (createExerciseFile (loops_section\<lparr>starterValue := Some []\<rparr>) ''/w/exercises''
          (Some ''user-1'') [] Map.empty)
        (exercisePath ''/w/exercises'' (loops_section\<lparr>starterValue := Some []\<rparr>))
       \<noteq> starterValue (loops_section\<lparr>starterValue := Some []\<rparr>)"
  by (simp add: noRemoteRecord_def getStudentAnswer_def createExerciseFile_def
      fetchedAnswer_def starterContent_def loops_section_def getDefaultBoilerplate_def
      languageOf_def getCommentSyntax_def syntax_table_def toLowerCase_def
      toLowerCase_char_def isUpper_def)

section \<open>Facts about the input metrics tracker\<close>

text \<open>Every derived exercise path holds the marker the tracker looks for.\<close>

lemma includes_s_here: "includes_s (sub @ b) sub"
proof (cases "sub @ b")
  case Nil
  then show ?thesis by simp
next
  case (Cons x xs)
  have "take (length sub) (sub @ b) = sub" by simp
  then have "take (length sub) (x # xs) = sub" by (simp only: Cons)
  then show ?thesis unfolding Cons by simp
qed

lemma includes_s_append: "includes_s (a @ sub @ b) sub"
proof (induction a)
  case Nil
  show ?case using includes_s_here by simp
next
  case (Cons x a)
  then show ?case by simp
qed

lemma exercisePath_marked: "includes_s (exercisePath dir sec) ''exercise_''"
proof -
  have "exercisePath dir sec = (dir @ ''/'') @ ''exercise_''
      @ (numberToString (orderIndex sec) @ ''_'' @ sanitizeFileName (title sec)
         @ ''.'' @ getFileExtension (languageOf sec))"
    by (simp add: exercisePath_def path_join_def fileName_def)
  then show ?thesis by (simp only: includes_s_append)
qed

text \<open>The tests of the tracker are the ones the specification words describe.\<close>

lemma of_char_is: "k < 256 \<Longrightarrow> ((of_char c :: nat) = k) = (c = char_of k)"
proof
  assume k: "k < 256" and e: "(of_char c :: nat) = k"
  have "char_of (of_char c :: nat) = c" by simp
  with e show "c = char_of k" by simp
next
  assume k: "k < 256" and e: "c = char_of k"
  then show "(of_char c :: nat) = k" by simp
qed

lemma isWhitespace_spec: "isWhitespace c = spec_whitespace c"
proof -
  have "isWhitespace c =
      (c = char_of (9::nat) \<or> c = char_of (10::nat) \<or> c = char_of (11::nat)
       \<or> c = char_of (12::nat) \<or> c = char_of (13::nat) \<or> c = char_of (32::nat)
       \<or> c = char_of (160::nat))"
    by (simp add: isWhitespace_def of_char_is)
  also have "\<dots> = spec_whitespace c"
    by (auto simp: spec_whitespace_def char_of_def bit_Suc_0_iff)
  finally show ?thesis .
qed

lemma isNewlineWithIndent_spec: "isNewlineWithIndent t = spec_newline_indent t"
proof -
  have w: "list_all isWhitespace = list_all spec_whitespace"
    by (rule ext) (simp add: list_all_iff isWhitespace_spec)
  show ?thesis
  proof (cases t)
    case Nil
    then show ?thesis by (simp add: isNewlineWithIndent_def spec_newline_indent_def)
  next
    case (Cons c r)
    show ?thesis
    proof (cases r)
      case Nil
      with Cons show ?thesis
        by (auto simp: isNewlineWithIndent_def spec_newline_indent_def newline_def)
    next
      case (Cons d r')
      with \<open>t = c # r\<close> show ?thesis
        by (auto simp: isNewlineWithIndent_def spec_newline_indent_def newline_def w)
    qed
  qed
qed

lemma countChange_fields:
  "keystrokeCount (countChange m t) = keystrokeCount m + (if spec_keystroke t then 1 else 0)"
  "pasteCount (countChange m t) = pasteCount m + (if spec_paste t then 1 else 0)"
  "pasteCharCount (countChange m t) = pasteCharCount m + (if spec_paste t then length t else 0)"
  "firstInputAt (countChange m t) = firstInputAt m"
  "lastInputAt (countChange m t) = lastInputAt m"
  by (simp_all add: countChange_def spec_keystroke_def spec_paste_def PASTE_CHAR_THRESHOLD_def
      isNewlineWithIndent_spec)

lemma foldl_countChange:
  "keystrokeCount (foldl countChange m cs) = keystrokeCount m + length (filter spec_keystroke cs)
   \<and> pasteCount (foldl countChange m cs) = pasteCount m + length (filter spec_paste cs)
   \<and> pasteCharCount (foldl countChange m cs)
       = pasteCharCount m + sum_list (map length (filter spec_paste cs))
   \<and> firstInputAt (foldl countChange m cs) = firstInputAt m
   \<and> lastInputAt (foldl countChange m cs) = lastInputAt m"
proof (induction cs arbitrary: m)
  case Nil
  show ?case by simp
next
  case (Cons t cs)
  show ?case
    by (simp add: Cons.IH [of "countChange m t"] countChange_fields)
qed

lemma handle_entry:
  assumes "includes_s filePath ''exercise_''" and "cs \<noteq> []"
  shows "handleDocumentChange metrics filePath cs now (toLowerCase filePath)
     = Some (foldl countChange
         ((getOrCreate metrics filePath)
            \<lparr>firstInputAt := (case firstInputAt (getOrCreate metrics filePath) of
                                None \<Rightarrow> Some now | Some t \<Rightarrow> Some t),
             lastInputAt := Some now\<rparr>) cs)"
  using assms by (simp add: handleDocumentChange_def Let_def)

lemma handle_counts:
  assumes "includes_s filePath ''exercise_''" and "cs \<noteq> []"
  shows "\<exists>m'. handleDocumentChange metrics filePath cs now (toLowerCase filePath) = Some m'
     \<and> keystrokeCount m'
         = keystrokeCount (getOrCreate metrics filePath) + length (filter spec_keystroke cs)
     \<and> pasteCount m'
         = pasteCount (getOrCreate metrics filePath) + length (filter spec_paste cs)
     \<and> pasteCharCount m'
         = pasteCharCount (getOrCreate metrics filePath)
           + sum_list (map length (filter spec_paste cs))"
  by (simp add: handle_entry [OF assms] foldl_countChange)

lemma getOrCreate_after:
  "metrics (toLowerCase filePath) = Some m \<Longrightarrow> getOrCreate metrics filePath = m"
  by (simp add: getOrCreate_def)

lemma typeEach_keystrokes:
  assumes inc: "includes_s filePath ''exercise_''"
  shows "list_all (\<lambda>(t, now). spec_keystroke t) evs \<Longrightarrow> evs \<noteq> [] \<Longrightarrow>
    \<exists>m'. typeEach metrics filePath evs (toLowerCase filePath) = Some m'
      \<and> keystrokeCount m' = keystrokeCount (getOrCreate metrics filePath) + length evs
      \<and> pasteCount m' = pasteCount (getOrCreate metrics filePath)
      \<and> pasteCharCount m' = pasteCharCount (getOrCreate metrics filePath)"
proof (induction evs arbitrary: metrics)
  case Nil
  then show ?case by simp
next
  case (Cons e evs)
  obtain t now where e: "e = (t, now)" by (cases e)
  from Cons.prems e have kt: "spec_keystroke t" by simp
  let ?ms = "handleDocumentChange metrics filePath [t] now"
  from handle_counts [OF inc, of "[t]" metrics now] kt
  obtain m1 where m1: "?ms (toLowerCase filePath) = Some m1"
    and k1: "keystrokeCount m1 = keystrokeCount (getOrCreate metrics filePath) + 1"
    and p1: "pasteCount m1 = pasteCount (getOrCreate metrics filePath)"
    and c1: "pasteCharCount m1 = pasteCharCount (getOrCreate metrics filePath)"
    by (auto simp: spec_paste_def)
  have g: "getOrCreate ?ms filePath = m1" using m1 by (rule getOrCreate_after)
  have step: "typeEach metrics filePath (e # evs) = typeEach ?ms filePath evs"
    by (simp add: typeEach_def e)
  show ?case
  proof (cases "evs = []")
    case True
    with m1 k1 p1 c1 show ?thesis by (simp add: typeEach_def e)
  next
    case False
    from Cons.prems have "list_all (\<lambda>(t, now). spec_keystroke t) evs" by simp
    from Cons.IH [OF this False, of ?ms] g k1 p1 c1 step show ?thesis by auto
  qed
qed

text \<open>
  C5 (as amended). On a file whose path holds the marker \<open>exercise_\<close>, one text change
  adds one keystroke when its text is empty, at most two characters long, or a newline
  followed only by whitespace (of any length); any other change adds one paste and its
  length to the paste characters. A change event with several changes adds them up. Five
  single-character insertions on a fresh tracker give 5 keystrokes and no paste; one
  50-character insertion that is not a newline followed only by whitespace gives no
  keystroke, one paste and 50 paste characters.
\<close>

theorem input_classification:
  assumes "includes_s filePath ''exercise_''"
  shows "(\<exists>m'. handleDocumentChange metrics filePath [t] now (toLowerCase filePath) = Some m'
          \<and> keystrokeCount m' = keystrokeCount (getOrCreate metrics filePath)
               + (if t = [] \<or> length t \<le> 2 \<or> spec_newline_indent t then 1 else 0)
          \<and> pasteCount m' = pasteCount (getOrCreate metrics filePath)
               + (if t = [] \<or> length t \<le> 2 \<or> spec_newline_indent t then 0 else 1)
          \<and> pasteCharCount m' = pasteCharCount (getOrCreate metrics filePath)
               + (if t = [] \<or> length t \<le> 2 \<or> spec_newline_indent t then 0 else length t))
       \<and> (spec_newline_indent indent \<longrightarrow>
           (\<exists>m'. handleDocumentChange metrics filePath [indent] now (toLowerCase filePath) = Some m'
             \<and> keystrokeCount m' = keystrokeCount (getOrCreate metrics filePath) + 1
             \<and> pasteCount m' = pasteCount (getOrCreate metrics filePath)
             \<and> pasteCharCount m' = pasteCharCount (getOrCreate metrics filePath)))
       \<and> (cs \<noteq> [] \<longrightarrow>
           (\<exists>m'. handleDocumentChange metrics filePath cs now (toLowerCase filePath) = Some m'
             \<and> keystrokeCount m' = keystrokeCount (getOrCreate metrics filePath)
                  + length (filter spec_keystroke cs)
             \<and> pasteCount m' = pasteCount (getOrCreate metrics filePath)
                  + length (filter spec_paste cs)
             \<and> pasteCharCount m' = pasteCharCount (getOrCreate metrics filePath)
                  + sum_list (map length (filter spec_paste cs))))
       \<and> (length evs = 5 \<and> list_all (\<lambda>(t, now). length t = 1) evs \<longrightarrow>
           (\<exists>m'. typeEach Map.empty filePath evs (toLowerCase filePath) = Some m'
             \<and> keystrokeCount m' = 5 \<and> pasteCount m' = 0 \<and> pasteCharCount m' = 0))
       \<and> (length block = 50 \<and> \<not> spec_newline_indent block \<longrightarrow>
           (\<exists>m'. handleDocumentChange Map.empty filePath [block] now (toLowerCase filePath) = Some m'
             \<and> keystrokeCount m' = 0 \<and> pasteCount m' = 1 \<and> pasteCharCount m' = 50))"
proof -
  note inc = assms
  have one: "\<exists>m'. handleDocumentChange metrics filePath [t] now (toLowerCase filePath) = Some m'
          \<and> keystrokeCount m' = keystrokeCount (getOrCreate metrics filePath)
               + (if t = [] \<or> length t \<le> 2 \<or> spec_newline_indent t then 1 else 0)
          \<and> pasteCount m' = pasteCount (getOrCreate metrics filePath)
               + (if t = [] \<or> length t \<le> 2 \<or> spec_newline_indent t then 0 else 1)
          \<and> pasteCharCount m' = pasteCharCount (getOrCreate metrics filePath)
               + (if t = [] \<or> length t \<le> 2 \<or> spec_newline_indent t then 0 else length t)"
    using handle_counts [OF inc, of "[t]" metrics now]
    by (auto simp: spec_paste_def spec_keystroke_def split: if_splits)
  have ind: "\<exists>m'. handleDocumentChange metrics filePath [indent] now (toLowerCase filePath) = Some m'
             \<and> keystrokeCount m' = keystrokeCount (getOrCreate metrics filePath) + 1
             \<and> pasteCount m' = pasteCount (getOrCreate metrics filePath)
             \<and> pasteCharCount m' = pasteCharCount (getOrCreate metrics filePath)"
    if h: "spec_newline_indent indent"
  proof -
    from h have k: "spec_keystroke indent" by (simp add: spec_keystroke_def)
    then have p: "\<not> spec_paste indent" by (simp add: spec_paste_def)
    from handle_counts [OF inc, of "[indent]" metrics now] k p show ?thesis by simp
  qed
  have many: "cs \<noteq> [] \<Longrightarrow>
           (\<exists>m'. handleDocumentChange metrics filePath cs now (toLowerCase filePath) = Some m'
             \<and> keystrokeCount m' = keystrokeCount (getOrCreate metrics filePath)
                  + length (filter spec_keystroke cs)
             \<and> pasteCount m' = pasteCount (getOrCreate metrics filePath)
                  + length (filter spec_paste cs)
             \<and> pasteCharCount m' = pasteCharCount (getOrCreate metrics filePath)
                  + sum_list (map length (filter spec_paste cs)))"
    by (rule handle_counts [OF inc])
  have five: "(\<exists>m'. typeEach Map.empty filePath evs (toLowerCase filePath) = Some m'
             \<and> keystrokeCount m' = 5 \<and> pasteCount m' = 0 \<and> pasteCharCount m' = 0)"
    if h: "length evs = 5 \<and> list_all (\<lambda>(t, now). length t = 1) evs"
  proof -
    from h have ne: "evs \<noteq> []" by auto
    from h have "list_all (\<lambda>(t, now). spec_keystroke t) evs"
      by (auto simp: list_all_iff spec_keystroke_def)
    from typeEach_keystrokes [OF inc this ne, of Map.empty] h show ?thesis
      by (simp add: getOrCreate_def emptyMetrics_def)
  qed
  have fifty: "(\<exists>m'. handleDocumentChange Map.empty filePath [block] now (toLowerCase filePath) = Some m'
             \<and> keystrokeCount m' = 0 \<and> pasteCount m' = 1 \<and> pasteCharCount m' = 50)"
    if h: "length block = 50 \<and> \<not> spec_newline_indent block"
  proof -
    from h have nk: "\<not> spec_keystroke block" by (auto simp: spec_keystroke_def)
    then have sp: "spec_paste block" by (simp add: spec_paste_def)
    from handle_counts [OF inc, of "[block]" Map.empty now] nk sp h show ?thesis
      by (simp add: getOrCreate_def emptyMetrics_def)
  qed
  show ?thesis using one ind many five fifty by blast
qed

text \<open>
  Five typed characters; a pasted block of 50 characters; and a line feed with 49 blanks,
  which is 50 characters long and one keystroke.
\<close>

theorem input_classification_witness:
  "includes_s loops_path ''exercise_''
   \<and> length hello_events = 5
   \<and> list_all (\<lambda>(t, now). length t = 1) hello_events
   \<and> map_option keystrokeCount (typeEach Map.empty loops_path hello_events (toLowerCase loops_path))
        = Some 5
   \<and> map_option pasteCount (typeEach Map.empty loops_path hello_events (toLowerCase loops_path))
        = Some 0
   \<and> length block50 = 50
   \<and> \<not> spec_newline_indent block50
   \<and> map_option keystrokeCount
        (handleDocumentChange Map.empty loops_path [block50] 7 (toLowerCase loops_path)) = Some 0
   \<and> map_option pasteCount
        (handleDocumentChange Map.empty loops_path [block50] 7 (toLowerCase loops_path)) = Some 1
   \<and> map_option pasteCharCount
        (handleDocumentChange Map.empty loops_path [block50] 7 (toLowerCase loops_path)) = Some 50
   \<and> spec_newline_indent indent50
   \<and> map_option keystrokeCount
        (handleDocumentChange Map.empty loops_path [indent50] 7 (toLowerCase loops_path)) = Some 1
   \<and> map_option pasteCount
        (handleDocumentChange Map.empty loops_path [indent50] 7 (toLowerCase loops_path)) = Some 0"
proof -
  have inc: "includes_s loops_path ''exercise_''"
    by (simp add: loops_path_def)
  have e5: "length hello_events = 5 \<and> list_all (\<lambda>(t, now). length t = 1) hello_events"
    by (simp add: hello_events_def)
  have b50: "length block50 = 50 \<and> \<not> spec_newline_indent block50"
    by (simp add: block50_def spec_newline_indent_def)
  have i50: "spec_newline_indent indent50"
    by (simp add: indent50_def spec_newline_indent_def spec_whitespace_def)
  note th = input_classification [OF inc, where evs = hello_events and block = block50
      and now = 7 and indent = indent50 and metrics = Map.empty]
  from th e5 obtain m5 where
    "typeEach Map.empty loops_path hello_events (toLowerCase loops_path) = Some m5"
    "keystrokeCount m5 = 5" "pasteCount m5 = 0"
    by blast
  moreover from th b50 obtain m50 where
    "handleDocumentChange Map.empty loops_path [block50] 7 (toLowerCase loops_path) = Some m50"
    "keystrokeCount m50 = 0" "pasteCount m50 = 1" "pasteCharCount m50 = 50"
    by blast
  moreover from th i50 obtain mi where
    "handleDocumentChange Map.empty loops_path [indent50] 7 (toLowerCase loops_path) = Some mi"
    "keystrokeCount mi = keystrokeCount (getOrCreate Map.empty loops_path) + 1"
    "pasteCount mi = pasteCount (getOrCreate Map.empty loops_path)"
    by blast
  ultimately show ?thesis using inc e5 b50 i50
    by (simp add: getOrCreate_def emptyMetrics_def)
qed

text \<open>
  The claim as stated fails for a 50-character insertion that is a newline followed only
  by whitespace: a line feed and 49 blanks count as one keystroke and no paste.
\<close>

theorem input_classification_counterexample:
  "includes_s loops_path ''exercise_''
   \<and> length indent50 = 50
   \<and> map_option keystrokeCount
        (handleDocumentChange Map.empty loops_path [indent50] 7 (toLowerCase loops_path)) = Some 1
   \<and> map_option pasteCount
        (handleDocumentChange Map.empty loops_path [indent50] 7 (toLowerCase loops_path)) = Some 0
   \<and> map_option pasteCharCount
        (handleDocumentChange Map.empty loops_path [indent50] 7 (toLowerCase loops_path)) = Some 0"
  by (simp add: loops_path_def indent50_def handleDocumentChange_def getOrCreate_def
      emptyMetrics_def countChange_def PASTE_CHAR_THRESHOLD_def isNewlineWithIndent_def
      isWhitespace_def newline_def Let_def)

text \<open>
  C10. \<open>getAndReset\<close> removes the entry of the path (under its lower-cased key) and leaves
  every other entry alone. A second call, or a call for a path without an entry, returns
  zero counts, zero duration, the character count it was given, and the time of the call
  as both timestamps.
\<close>

theorem getAndReset_consumes:
  "snd (getAndReset metrics filePath charCount now) (toLowerCase filePath) = None
   \<and> (\<forall>k. k \<noteq> toLowerCase filePath \<longrightarrow>
         snd (getAndReset metrics filePath charCount now) k = metrics k)
   \<and> fst (getAndReset (snd (getAndReset metrics filePath charCount now)) filePath charCount' now')
       = \<lparr>keystrokeCount_im = 0, pasteCount_im = 0, pasteCharCount_im = 0,
          editDurationMs_im = 0, charCount_im = charCount',
          firstInputAt_im = now', lastInputAt_im = now'\<rparr>
   \<and> (metrics (toLowerCase filePath) = None \<longrightarrow>
        fst (getAndReset metrics filePath charCount now)
          = \<lparr>keystrokeCount_im = 0, pasteCount_im = 0, pasteCharCount_im = 0,
             editDurationMs_im = 0, charCount_im = charCount,
             firstInputAt_im = now, lastInputAt_im = now\<rparr>)"
  by (simp add: getAndReset_def Let_def)

theorem getAndReset_consumes_witness:
  "fst (getAndReset
         (snd (getAndReset (typeEach Map.empty loops_path hello_events) loops_path 5 900))
         loops_path 5 950)
     = \<lparr>keystrokeCount_im = 0, pasteCount_im = 0, pasteCharCount_im = 0,
        editDurationMs_im = 0, charCount_im = 5, firstInputAt_im = 950, lastInputAt_im = 950\<rparr>
   \<and> (Map.empty :: string \<rightharpoonup> fileMetrics) (toLowerCase loops_path) = None
   \<and> fst (getAndReset Map.empty loops_path 12 300)
     = \<lparr>keystrokeCount_im = 0, pasteCount_im = 0, pasteCharCount_im = 0,
        editDurationMs_im = 0, charCount_im = 12, firstInputAt_im = 300, lastInputAt_im = 300\<rparr>
   \<and> ''/w/readme.md'' \<noteq> toLowerCase loops_path
   \<and> snd (getAndReset (typeEach Map.empty loops_path hello_events) loops_path 5 900)
        ''/w/readme.md''
      = typeEach Map.empty loops_path hello_events ''/w/readme.md''"
proof -
  have l: "toLowerCase loops_path = loops_path"
    by (simp add: loops_path_def toLowerCase_def toLowerCase_char_def isUpper_def)
  have n: "''/w/readme.md'' \<noteq> toLowerCase loops_path"
    by (simp add: l) (simp add: loops_path_def)
  note th = getAndReset_consumes [of "typeEach Map.empty loops_path hello_events" loops_path 5 900 5 950]
    and th0 = getAndReset_consumes [of Map.empty loops_path 12 300]
  from th0 have "fst (getAndReset Map.empty loops_path 12 300)
     = \<lparr>keystrokeCount_im = 0, pasteCount_im = 0, pasteCharCount_im = 0,
        editDurationMs_im = 0, charCount_im = 12, firstInputAt_im = 300, lastInputAt_im = 300\<rparr>"
    by simp
  moreover from th n have "snd (getAndReset (typeEach Map.empty loops_path hello_events) loops_path 5 900)
        ''/w/readme.md''
      = typeEach Map.empty loops_path hello_events ''/w/readme.md''"
    by blast
  ultimately show ?thesis using th n by simp
qed

section \<open>Facts about the file sync manager\<close>

subsection \<open>Mutual exclusion is an invariant\<close>

lemma exclusive_initial: "exclusive (initial root user fs docs)"
  by (simp add: exclusive_def initial_def inFlight_def)

lemma exclusive_cong:
  "tasks s' = tasks s \<Longrightarrow> syncInProgress s' = syncInProgress s \<Longrightarrow> nextTask s' = nextTask s
     \<Longrightarrow> exclusive s \<Longrightarrow> exclusive s'"
  by (simp add: exclusive_def inFlight_def)

lemma stopWatching_frame:
  "tasks (stopWatching s) = tasks s" "syncInProgress (stopWatching s) = syncInProgress s"
  "nextTask (stopWatching s) = nextTask s" "timers (stopWatching s) = timers s"
  by (simp_all add: stopWatching_def)

lemma startCourseWatcher_frame:
  "tasks (startCourseWatcher c s) = tasks s"
  "syncInProgress (startCourseWatcher c s) = syncInProgress s"
  "nextTask (startCourseWatcher c s) = nextTask s"
  "timers (startCourseWatcher c s) = timers s"
  by (simp_all add: startCourseWatcher_def split: option.splits)

lemma trackLesson_frame:
  "tasks (trackLesson p l secs c s) = tasks s"
  "syncInProgress (trackLesson p l secs c s) = syncInProgress s"
  "nextTask (trackLesson p l secs c s) = nextTask s"
  "timers (trackLesson p l secs c s) = timers s"
  by (simp_all add: trackLesson_def Let_def stopWatching_frame startCourseWatcher_frame)

lemma queueSync_frame:
  "tasks (queueSync p c d s) = tasks s"
  "syncInProgress (queueSync p c d s) = syncInProgress s"
  "nextTask (queueSync p c d s) = nextTask s"
  by (simp_all add: queueSync_def Let_def clearTimeout_def split: option.splits)

lemma onDidChange_frame:
  "tasks (onDidChange p s) = tasks s"
  "syncInProgress (onDidChange p s) = syncInProgress s"
  "nextTask (onDidChange p s) = nextTask s"
  by (simp_all add: onDidChange_def queueSync_frame split: option.splits)

lemma afterSync_frame:
  "tasks (afterSync b p s) = tasks s"
  "syncInProgress (afterSync b p s) = syncInProgress s"
  "nextTask (afterSync b p s) = nextTask s"
  by (simp_all add: afterSync_def)

lemma exclusive_afterSync: "exclusive s \<Longrightarrow> exclusive (afterSync b p s)"
  by (rule exclusive_cong [of _ s]) (simp_all add: afterSync_frame)

lemma exclusive_syncFile:
  assumes "exclusive s"
  shows "exclusive (syncFile p c b s)"
proof (cases "map_of (fileToSectionMap s) (toLowerCase p)")
  case None
  then show ?thesis using assms by (simp add: syncFile_def exclusive_afterSync)
next
  case (Some sec)
  show ?thesis
  proof (cases "p \<in> syncInProgress s")
    case True
    with Some assms show ?thesis by (simp add: syncFile_def exclusive_afterSync)
  next
    case False
    have undo: "finallyBlock p (s\<lparr>syncInProgress := insert p (syncInProgress s)\<rparr>) = s"
      using False by (simp add: finallyBlock_def)
    show ?thesis
    proof (cases "signedIn s")
      case None
      with Some False undo assms show ?thesis
        by (simp add: syncFile_def Let_def exclusive_afterSync)
    next
      case (Some u)
      note u = Some
      show ?thesis
      proof (cases "u = []")
        case True
        with u \<open>map_of (fileToSectionMap s) (toLowerCase p) = Some sec\<close> False undo assms
        show ?thesis by (simp add: syncFile_def Let_def exclusive_afterSync)
      next
        case nonempty: False
        have fresh: "nextTask s \<notin> fst ` set (tasks s)"
          using assms by (auto simp: exclusive_def list_all_iff)
        have "p \<notin> set (inFlight s)" using assms False by (simp add: exclusive_def)
        with u \<open>map_of (fileToSectionMap s) (toLowerCase p) = Some sec\<close> False nonempty assms fresh
        show ?thesis
          by (auto simp: syncFile_def Let_def exclusive_def inFlight_def list_all_iff)
      qed
    qed
  qed
qed

lemma map_update_same:
  "map_of al k = Some t \<Longrightarrow> g (k, t') = g (k, t) \<Longrightarrow> map g (AList.update k t' al) = map g al"
  by (induction al) (auto split: if_splits)

lemma set_update_subset: "set (AList.update k v al) \<subseteq> insert (k, v) (set al)"
  by (induction al) auto

lemma map_fst_update:
  "map_of al k = Some t \<Longrightarrow> map fst (AList.update k t' al) = map fst al"
  by (rule map_update_same) simp_all

lemma delete_filter: "AList.delete k al = filter (\<lambda>e. fst e \<noteq> k) al"
  by (induction al) auto

lemma set_map_delete:
  assumes "distinct (map fst al)" and "distinct (map g al)" and "map_of al k = Some t"
  shows "set (map g (AList.delete k al)) = set (map g al) - {g (k, t)}"
  using assms
proof (induction al)
  case Nil
  then show ?case by simp
next
  case (Cons e al)
  obtain k' t' where e: "e = (k', t')" by (cases e)
  show ?case
  proof (cases "k' = k")
    case True
    with Cons.prems e have tt: "t' = t" by simp
    have "k \<notin> fst ` set al" using Cons.prems(1) e True by auto
    then have "AList.delete k al = al" by (simp add: delete_filter filter_id_conv) force
    moreover have "g (k, t) \<notin> set (map g al)" using Cons.prems(2) e True tt by auto
    ultimately show ?thesis using e True tt by auto
  next
    case False
    with Cons.prems e have m: "map_of al k = Some t" by simp
    from Cons.prems have d1: "distinct (map fst al)" and d2: "distinct (map g al)" by simp_all
    have kt: "(k, t) \<in> set al" using m by (rule map_of_SomeD)
    have "g e \<noteq> g (k, t)"
    proof
      assume "g e = g (k, t)"
      moreover have "g (k, t) \<in> set (map g al)" using kt by force
      ultimately show False using Cons.prems(2) by simp
    qed
    with Cons.IH [OF d1 d2 m] e False show ?thesis by auto
  qed
qed

lemma distinct_map_delete: "distinct (map g al) \<Longrightarrow> distinct (map g (AList.delete k al))"
  by (simp add: delete_filter distinct_map_filter)

lemma exclusive_settle:
  assumes "exclusive s" and "map_of (tasks s) k = Some t"
  shows "exclusive (settle k t s)"
proof -
  let ?g = "\<lambda>(k, t). k_path t"
  let ?s1 = "finallyBlock (k_path t) (s\<lparr>tasks := AList.delete k (tasks s)\<rparr>)"
  from assms(1) have d1: "distinct (map fst (tasks s))" and d2: "distinct (map ?g (tasks s))"
    and eq: "set (map ?g (tasks s)) = syncInProgress s"
    and lt: "list_all (\<lambda>(k, t). k < nextTask s) (tasks s)"
    by (simp_all add: exclusive_def inFlight_def)
  have a: "set (map ?g (AList.delete k (tasks s))) = syncInProgress s - {k_path t}"
    using set_map_delete [OF d1 d2 assms(2)] eq by simp
  have b: "distinct (map ?g (AList.delete k (tasks s)))" using d2 by (rule distinct_map_delete)
  have c: "distinct (map fst (AList.delete k (tasks s)))" using d1 by (rule distinct_map_delete)
  have d: "list_all (\<lambda>(k, t). k < nextTask s) (AList.delete k (tasks s))"
    using lt by (simp add: delete_filter list_all_iff)
  have "exclusive ?s1"
    using a b c d by (simp add: exclusive_def inFlight_def finallyBlock_def)
  then show ?thesis unfolding settle_def by (rule exclusive_afterSync)
qed

lemma exclusive_readSettles:
  assumes "exclusive s"
  shows "exclusive (readSettles k ok s)"
proof (cases "map_of (tasks s) k")
  case None
  with assms show ?thesis by (simp add: readSettles_def)
next
  case (Some t)
  show ?thesis
  proof (cases "k_phase t")
    case (Saving c im)
    with Some assms show ?thesis by (simp add: readSettles_def)
  next
    case Reading
    show ?thesis
    proof (cases "if ok then files s (k_path t) else None")
      case None
      with Some Reading exclusive_settle [OF assms Some] show ?thesis
        by (simp add: readSettles_def)
    next
      case (Some c)
      let ?t' = "t\<lparr>k_phase := Saving c
          (fst (getAndReset (metricsTracker s) (k_path t) (length c) (clock s)))\<rparr>"
      have m1: "map (\<lambda>(k, t). k_path t) (AList.update k ?t' (tasks s))
                  = map (\<lambda>(k, t). k_path t) (tasks s)"
        using \<open>map_of (tasks s) k = Some t\<close> by (rule map_update_same) simp
      have m2: "map fst (AList.update k ?t' (tasks s)) = map fst (tasks s)"
        using \<open>map_of (tasks s) k = Some t\<close> by (rule map_fst_update)
      have m3: "list_all (\<lambda>(k, t). k < nextTask s) (AList.update k ?t' (tasks s))"
      proof -
        have "(k, t) \<in> set (tasks s)" using \<open>map_of (tasks s) k = Some t\<close> by (rule map_of_SomeD)
        with assms have "k < nextTask s" by (auto simp: exclusive_def list_all_iff)
        moreover have "set (AList.update k ?t' (tasks s)) \<subseteq> insert (k, ?t') (set (tasks s))"
          by (rule set_update_subset)
        ultimately show ?thesis using assms by (auto simp: exclusive_def list_all_iff)
      qed
      from Some Reading \<open>map_of (tasks s) k = Some t\<close> assms m1 m2 m3 show ?thesis
        by (simp add: readSettles_def exclusive_def inFlight_def)
    qed
  qed
qed

lemma exclusive_saveSettles:
  assumes "exclusive s"
  shows "exclusive (saveSettles k ok s)"
proof (cases "map_of (tasks s) k")
  case None
  with assms show ?thesis by (simp add: saveSettles_def)
next
  case (Some t)
  show ?thesis
  proof (cases "k_phase t")
    case Reading
    with Some assms show ?thesis by (simp add: saveSettles_def)
  next
    case (Saving c im)
    let ?s' = "s\<lparr>answers := saveStudentAnswer (id_s (k_section t)) (k_userId t)
                                       (lessonId (k_section t)) c CodeAnswer
                                       (Some (k_courseId t)) (clock s) (answers s),
                         pushes := pushes s @ [(k_path t, c)]\<rparr>"
    have e: "exclusive ?s'" using assms by (rule exclusive_cong [rotated -1]) simp_all
    have "map_of (tasks ?s') k = Some t" using Some by simp
    from exclusive_settle [OF e this] exclusive_settle [OF assms Some] Some Saving
    show ?thesis by (simp add: saveSettles_def)
  qed
qed

lemma exclusive_timerFires: "exclusive s \<Longrightarrow> exclusive (timerFires h s)"
proof -
  assume e: "exclusive s"
  have "exclusive (s\<lparr>timers := AList.delete h (timers s)\<rparr>)"
    using e by (rule exclusive_cong [rotated -1]) simp_all
  then show ?thesis
    using e by (simp add: timerFires_def exclusive_syncFile split: option.splits)
qed

lemma exclusive_step: "exclusive s \<Longrightarrow> exclusive (step e s)"
proof (cases e)
  case (TrackLesson p l secs c)
  assume "exclusive s"
  then show ?thesis unfolding TrackLesson step.simps
    by (rule exclusive_cong [rotated -1]) (simp_all add: trackLesson_frame)
next
  case StopWatching
  assume "exclusive s"
  then show ?thesis unfolding StopWatching step.simps
    by (rule exclusive_cong [rotated -1]) (simp_all add: stopWatching_frame)
next
  case (FileChanged p)
  assume "exclusive s"
  then show ?thesis unfolding FileChanged step.simps
    by (rule exclusive_cong [rotated -1]) (simp_all add: onDidChange_frame)
next
  case (SyncCurrentFile p)
  assume "exclusive s"
  then show ?thesis unfolding SyncCurrentFile step.simps
    by (simp add: syncCurrentFile_def exclusive_syncFile split: option.splits)
next
  case (DocumentChange p cs)
  assume "exclusive s"
  then show ?thesis unfolding DocumentChange step.simps
    by (rule exclusive_cong [rotated -1]) simp_all
next
  case (UserWrites p c)
  assume "exclusive s"
  then show ?thesis unfolding UserWrites step.simps
    by (rule exclusive_cong [rotated -1]) simp_all
next
  case (Advance n)
  assume "exclusive s"
  then show ?thesis unfolding Advance step.simps
    by (rule exclusive_cong [rotated -1]) simp_all
next
  case (TimerFires h)
  assume "exclusive s"
  then show ?thesis unfolding TimerFires step.simps by (rule exclusive_timerFires)
next
  case (ReadSettles k ok)
  assume "exclusive s"
  then show ?thesis unfolding ReadSettles step.simps by (rule exclusive_readSettles)
next
  case (SaveSettles k ok)
  assume "exclusive s"
  then show ?thesis unfolding SaveSettles step.simps by (rule exclusive_saveSettles)
qed

lemma exclusive_run: "exclusive s \<Longrightarrow> exclusive (run evs s)"
  by (induction evs arbitrary: s) (simp_all add: exclusive_step)

subsection \<open>Pushes of one file\<close>

lemma loops_key: "trackedKey ''/w'' loops_section = loops_path"
  by (simp add: loops_section_def loops_path_def eval_simps)

lemma loops_path_lower: "toLowerCase loops_path = loops_path"
  by (simp add: loops_path_def toLowerCase_def toLowerCase_char_def isUpper_def)

lemma syncFile_skip:
  "filePath \<in> syncInProgress s \<Longrightarrow> syncFile filePath cid b s = afterSync b filePath s"
  by (simp add: syncFile_def split: option.splits)

lemma settle_unmarks: "k_path t \<notin> syncInProgress (settle k t s)"
  by (simp add: settle_def afterSync_frame finallyBlock_def)

lemma settle_frame:
  "fileToSectionMap (settle k t s) = fileToSectionMap s" "signedIn (settle k t s) = signedIn s"
  by (simp_all add: settle_def afterSync_def finallyBlock_def)

lemma syncFile_starts:
  assumes "map_of (fileToSectionMap s) (toLowerCase filePath) = Some sec"
    and "filePath \<notin> syncInProgress s" and "signedIn s = Some u" and "u \<noteq> []"
  shows "filePath \<in> set (inFlight (syncFile filePath cid b s))"
  using assms by (simp add: syncFile_def Let_def inFlight_def)

lemma distinct_once: "distinct xs \<Longrightarrow> length (filter (\<lambda>q. q = x) xs) \<le> 1"
  by (induction xs) (auto simp: filter_empty_conv)

text \<open>
  C2. In every state the manager reaches from its initial state, whatever the events: no
  path has more than one activation of \<open>syncFile\<close> in progress, and the paths in progress
  are exactly the marked ones. A sync of a marked path, from the manual entry or from a
  timer callback, starts nothing (the state is unchanged, but for the timer callback's
  removal of its \<open>pendingSaves\<close> entry), so it causes no store write. When the read or the
  store write of an activation settles, also with a failure, the mark of its path is gone;
  after a failed store write a new sync of the path (still tracked, user signed in) starts.
\<close>

theorem push_mutual_exclusion:
  assumes "s = run evs (initial root user fs docs)"
  shows "distinct (inFlight s)
       \<and> length (filter (\<lambda>q. q = filePath) (inFlight s)) \<le> 1
       \<and> set (inFlight s) = syncInProgress s
       \<and> (filePath \<in> syncInProgress s \<longrightarrow>
            syncFile filePath cid False s = s
            \<and> syncCurrentFile filePath s = s
            \<and> syncFile filePath cid True s
                = s\<lparr>pendingSaves := AList.delete filePath (pendingSaves s)\<rparr>)
       \<and> (map_of (tasks s) k = Some t \<and> k_phase t = Reading \<longrightarrow>
            k_path t \<notin> syncInProgress (readSettles k False s))
       \<and> (map_of (tasks s) k = Some t \<and> k_phase t = Saving c im \<longrightarrow>
            k_path t \<notin> syncInProgress (saveSettles k ok s))
       \<and> (map_of (tasks s) k = Some t \<and> k_phase t = Saving c im
            \<and> map_of (fileToSectionMap s) (toLowerCase (k_path t)) = Some sec
            \<and> signedIn s = Some u \<and> u \<noteq> [] \<longrightarrow>
            k_path t \<in> set (inFlight (syncFile (k_path t) cid False (saveSettles k False s))))"
proof -
  have ex: "exclusive s"
    unfolding assms by (rule exclusive_run) (rule exclusive_initial)
  then have d: "distinct (inFlight s)" and m: "set (inFlight s) = syncInProgress s"
    by (simp_all add: exclusive_def)
  have one: "length (filter (\<lambda>q. q = filePath) (inFlight s)) \<le> 1"
    using d by (rule distinct_once)
  have skip: "syncFile filePath cid False s = s \<and> syncCurrentFile filePath s = s
      \<and> syncFile filePath cid True s = s\<lparr>pendingSaves := AList.delete filePath (pendingSaves s)\<rparr>"
    if "filePath \<in> syncInProgress s"
    using that by (simp add: syncFile_skip syncCurrentFile_def afterSync_def split: option.splits)
  have r: "k_path t \<notin> syncInProgress (readSettles k False s)"
    if "map_of (tasks s) k = Some t \<and> k_phase t = Reading"
    using that by (simp add: readSettles_def settle_unmarks)
  have sv: "k_path t \<notin> syncInProgress (saveSettles k ok s)"
    if "map_of (tasks s) k = Some t \<and> k_phase t = Saving c im"
    using that by (simp add: saveSettles_def settle_unmarks)
  have again: "k_path t \<in> set (inFlight (syncFile (k_path t) cid False (saveSettles k False s)))"
    if h: "map_of (tasks s) k = Some t \<and> k_phase t = Saving c im
            \<and> map_of (fileToSectionMap s) (toLowerCase (k_path t)) = Some sec
            \<and> signedIn s = Some u \<and> u \<noteq> []"
  proof -
    from h have e: "saveSettles k False s = settle k t s" by (simp add: saveSettles_def)
    show ?thesis unfolding e
    proof (rule syncFile_starts)
      show "map_of (fileToSectionMap (settle k t s)) (toLowerCase (k_path t)) = Some sec"
        using h by (simp add: settle_frame)
      show "k_path t \<notin> syncInProgress (settle k t s)" by (rule settle_unmarks)
      show "signedIn (settle k t s) = Some u" using h by (simp add: settle_frame)
      show "u \<noteq> []" using h by simp
    qed
  qed
  show ?thesis using d one m skip r sv again by blast
qed

subsection \<open>Evaluating scenarios\<close>

lemma loops_fields:
  "type_s loops_section = CodeSection" "id_s loops_section = ''sec-loops''"
  "lessonId loops_section = ''lesson-1''"
  by (simp_all add: loops_section_def)

lemmas run_simps = loops_fields
  demo_initial_def open_lesson_def initial_def trackLesson_def courseChanged_def
  stopWatching_def startCourseWatcher_def addSection_def queueSync_def clearTimeout_def
  onDidChange_def afterSync_def finallyBlock_def syncFile_def settle_def readSettles_def
  saveSettles_def timerFires_def syncCurrentFile_def saveStudentAnswer_def matches_def
  getAndReset_def handleDocumentChange_def getOrCreate_def emptyMetrics_def countChange_def
  PASTE_CHAR_THRESHOLD_def inFlight_def armedFor_def Let_def loops_key loops_path_lower

lemma loops_marked: "includes_s loops_path ''exercise_''"
  by (simp add: loops_path_def)

theorem push_mutual_exclusion_witness:
  "inFlight reading_state = [loops_path]
   \<and> loops_path \<in> syncInProgress reading_state
   \<and> syncCurrentFile loops_path reading_state = reading_state
   \<and> pushes (run [SyncCurrentFile loops_path, ReadSettles 0 True, SaveSettles 0 True] reading_state)
        = [(loops_path, ''x = 1'')]
   \<and> loops_path \<notin> syncInProgress (readSettles 0 False reading_state)
   \<and> loops_path \<notin> syncInProgress (saveSettles 0 False saving_state)
   \<and> loops_path \<in> set (inFlight (syncFile loops_path ''course-1'' False
                                   (saveSettles 0 False saving_state)))"
proof -
  let ?t = "\<lparr>k_path = loops_path, k_courseId = ''course-1'', k_section = loops_section,
             k_userId = ''user-1'', k_phase = Reading, k_fromTimer = False\<rparr>"
  let ?im = "\<lparr>keystrokeCount_im = 0, pasteCount_im = 0, pasteCharCount_im = 0,
              editDurationMs_im = 0, charCount_im = 5, firstInputAt_im = 0, lastInputAt_im = 0\<rparr>"
  have r1: "map_of (tasks reading_state) 0 = Some ?t \<and> k_phase ?t = Reading"
    by (simp add: reading_state_def run_simps)
  have r2: "loops_path \<in> syncInProgress reading_state"
    by (simp add: reading_state_def run_simps)
  have r3: "inFlight reading_state = [loops_path]"
    by (simp add: reading_state_def run_simps)
  have s1: "map_of (tasks saving_state) 0 = Some (?t\<lparr>k_phase := Saving ''x = 1'' ?im\<rparr>)
      \<and> k_phase (?t\<lparr>k_phase := Saving ''x = 1'' ?im\<rparr>) = Saving ''x = 1'' ?im
      \<and> map_of (fileToSectionMap saving_state)
           (toLowerCase (k_path (?t\<lparr>k_phase := Saving ''x = 1'' ?im\<rparr>))) = Some loops_section
      \<and> signedIn saving_state = Some ''user-1'' \<and> ''user-1'' \<noteq> []"
    by (simp add: saving_state_def run_simps)
  have p: "pushes (run [SyncCurrentFile loops_path, ReadSettles 0 True, SaveSettles 0 True] reading_state)
        = [(loops_path, ''x = 1'')]"
    by (simp add: reading_state_def run_simps)
  have e1: "reading_state = run [open_lesson, SyncCurrentFile loops_path]
      (initial (Some ''/w'') (Some ''user-1'') [loops_path \<mapsto> ''x = 1''] [])"
    by (simp only: reading_state_def demo_initial_def)
  have e2: "saving_state = run [open_lesson, SyncCurrentFile loops_path, ReadSettles 0 True]
      (initial (Some ''/w'') (Some ''user-1'') [loops_path \<mapsto> ''x = 1''] [])"
    by (simp only: saving_state_def demo_initial_def)
  note a = push_mutual_exclusion [OF e1, where filePath = loops_path and k = 0
      and t = ?t]
  note b = push_mutual_exclusion [OF e2, where k = 0
      and t = "?t\<lparr>k_phase := Saving ''x = 1'' ?im\<rparr>" and c = "''x = 1''" and im = ?im
      and sec = loops_section and u = "''user-1''" and cid = "''course-1''" and ok = False]
  from a r2 have skip: "syncCurrentFile loops_path reading_state = reading_state" by blast
  from a r1 have rf: "loops_path \<notin> syncInProgress (readSettles 0 False reading_state)"
    by simp
  from b s1 have sf: "loops_path \<notin> syncInProgress (saveSettles 0 False saving_state)"
    by simp
  from b s1 have ag: "loops_path \<in> set (inFlight (syncFile loops_path ''course-1'' False
                                   (saveSettles 0 False saving_state)))"
    by simp
  show ?thesis using r3 r2 skip p rf sf ag by simp
qed

subsection \<open>The debounce\<close>

text \<open>
  While the bookkeeping is intact, \<open>queueSync\<close> leaves exactly one armed timeout for its
  path, the new one, due after the delay; so changes that follow each other with no other
  event in between leave one timeout per path.
\<close>

lemma recorded_initial: "recorded (initial root user fs docs)"
  by (simp add: recorded_def initial_def)

lemma recorded_once: "recorded s \<Longrightarrow> length (armedFor p s) \<le> 1"
proof -
  assume "recorded s"
  then have "distinct (map (\<lambda>(h, t). t_path t) (timers s))" by (simp add: recorded_def)
  then have "length (filter (\<lambda>q. q = p) (map (\<lambda>(h, t). t_path t) (timers s))) \<le> 1"
    by (rule distinct_once)
  moreover have "length (armedFor p s)
      = length (filter (\<lambda>q. q = p) (map (\<lambda>(h, t). t_path t) (timers s)))"
    by (simp add: armedFor_def filter_map comp_def split_def)
  ultimately show ?thesis by simp
qed

lemma queueSync_recorded:
  assumes "recorded s"
  shows "recorded (queueSync p c d s)
       \<and> armedFor p (queueSync p c d s) = [nextTimer s]
       \<and> map_of (timers (queueSync p c d s)) (nextTimer s)
           = Some \<lparr>t_path = p, t_courseId = c, t_due = clock s + d\<rparr>"
proof -
  define s1 where "s1 = (case map_of (pendingSaves s) p of None \<Rightarrow> s
                          | Some e \<Rightarrow> clearTimeout e s)"
  define new where "new = (nextTimer s, \<lparr>t_path = p, t_courseId = c, t_due = clock s + d\<rparr>)"
  from assms have dk: "distinct (map fst (timers s))"
    and dp: "distinct (map (\<lambda>(h, t). t_path t) (timers s))"
    and rec: "\<And>h t. (h, t) \<in> set (timers s) \<Longrightarrow>
                map_of (pendingSaves s) (t_path t) = Some h \<and> h < nextTimer s"
    by (auto simp: recorded_def list_all_iff)
  have frame: "pendingSaves s1 = pendingSaves s" "nextTimer s1 = nextTimer s" "clock s1 = clock s"
    by (simp_all add: s1_def clearTimeout_def split: option.splits)
  have t1: "timers s1 = (case map_of (pendingSaves s) p of None \<Rightarrow> timers s
                          | Some e \<Rightarrow> filter (\<lambda>x. fst x \<noteq> e) (timers s))"
    by (simp add: s1_def clearTimeout_def delete_filter split: option.splits)
  have sub: "set (timers s1) \<subseteq> set (timers s)"
    by (auto simp: t1 split: option.splits)
  have dk1: "distinct (map fst (timers s1))"
    using dk by (simp add: t1 distinct_map_filter split: option.splits)
  have dp1: "distinct (map (\<lambda>(h, t). t_path t) (timers s1))"
    using dp by (simp add: t1 distinct_map_filter split: option.splits)
  have none: "t_path t \<noteq> p" if "(h, t) \<in> set (timers s1)" for h t
  proof
    assume e: "t_path t = p"
    from that sub have "(h, t) \<in> set (timers s)" by blast
    from rec [OF this] e have "map_of (pendingSaves s) p = Some h" by simp
    with that show False by (simp add: t1)
  qed
  have fresh: "nextTimer s \<notin> fst ` set (timers s1)"
    using rec sub by fastforce
  have q: "queueSync p c d s
      = s1\<lparr>timers := timers s1 @ [new], nextTimer := Suc (nextTimer s),
            pendingSaves := AList.update p (nextTimer s) (pendingSaves s)\<rparr>"
    by (simp add: queueSync_def Let_def s1_def [symmetric] frame new_def)
  have a: "armedFor p (queueSync p c d s) = [nextTimer s]"
  proof -
    have "filter (\<lambda>(h, t). t_path t = p) (timers s1) = []"
      using none by (auto simp: filter_empty_conv)
    then show ?thesis by (simp add: q armedFor_def new_def)
  qed
  have b: "map_of (timers (queueSync p c d s)) (nextTimer s)
           = Some \<lparr>t_path = p, t_courseId = c, t_due = clock s + d\<rparr>"
  proof -
    have "map_of (timers s1) (nextTimer s) = None"
      using fresh by (simp add: map_of_eq_None_iff)
    then show ?thesis by (simp add: q new_def map_add_def)
  qed
  have r: "recorded (queueSync p c d s)"
  proof -
    have "distinct (map fst (timers s1 @ [new]))"
      using dk1 fresh by (simp add: new_def)
    moreover have "distinct (map (\<lambda>(h, t). t_path t) (timers s1 @ [new]))"
      using dp1 none by (auto simp: new_def)
    moreover have "list_all (\<lambda>(h, t). map_of (AList.update p (nextTimer s) (pendingSaves s)) (t_path t)
          = Some h \<and> h < Suc (nextTimer s)) (timers s1 @ [new])"
    proof -
      have old: "map_of (AList.update p (nextTimer s) (pendingSaves s)) (t_path t) = Some h
            \<and> h < Suc (nextTimer s)"
        if m: "(h, t) \<in> set (timers s1)" for h t
      proof -
        from m sub have "(h, t) \<in> set (timers s)" by blast
        from rec [OF this] none [OF m] show ?thesis
          by (simp add: update_conv')
      qed
      have nw: "map_of (AList.update p (nextTimer s) (pendingSaves s)) p = Some (nextTimer s)"
        by (simp add: update_conv')
      show ?thesis
        unfolding list_all_iff
      proof
        fix x assume "x \<in> set (timers s1 @ [new])"
        then consider "x \<in> set (timers s1)" | "x = new" by auto
        then show "case x of (h, t) \<Rightarrow>
            map_of (AList.update p (nextTimer s) (pendingSaves s)) (t_path t) = Some h
            \<and> h < Suc (nextTimer s)"
        proof cases
          case 1
          obtain h t where "x = (h, t)" by (cases x)
          with 1 old [of h t] show ?thesis by simp
        next
          case 2
          with nw show ?thesis by (simp add: new_def)
        qed
      qed
    qed
    ultimately show ?thesis by (simp add: q recorded_def)
  qed
  show ?thesis using r a b by simp
qed

lemma recorded_quiet_step:
  assumes "recorded s" and "quiet e"
  shows "recorded (step e s)"
proof (cases e)
  case (FileChanged q)
  show ?thesis
  proof (cases "fileWatcher s")
    case None
    with FileChanged assms show ?thesis by (simp add: onDidChange_def)
  next
    case (Some c)
    with FileChanged queueSync_recorded [OF assms(1), of q c 2000] show ?thesis
      by (simp add: onDidChange_def)
  qed
next
  case (DocumentChange q cs)
  with assms show ?thesis by (simp add: recorded_def)
next
  case (UserWrites q c)
  with assms show ?thesis by (simp add: recorded_def)
next
  case (Advance n)
  with assms show ?thesis by (simp add: recorded_def)
qed (use assms in \<open>simp_all add: quiet_def\<close>)

lemma recorded_quiet_run:
  "recorded s \<Longrightarrow> list_all quiet evs \<Longrightarrow> recorded (run evs s)"
  by (induction evs arbitrary: s) (simp_all add: recorded_quiet_step)

lemma quiet_keeps_watcher:
  "list_all quiet evs \<Longrightarrow> fileWatcher (run evs s) = fileWatcher s"
proof (induction evs arbitrary: s)
  case Nil
  show ?case by simp
next
  case (Cons e evs)
  from Cons.prems have "quiet e" by simp
  then have "fileWatcher (step e s) = fileWatcher s"
    by (cases e) (simp_all add: quiet_def onDidChange_def queueSync_def Let_def clearTimeout_def
        split: option.splits)
  with Cons show ?case by simp
qed

lemma debounce_when_quiet:
  assumes "recorded s" and "fileWatcher s = Some c" and "list_all quiet evs"
  shows "length (armedFor q (run evs s)) \<le> 1"
    and "armedFor p (run (evs @ [FileChanged p]) s) = [nextTimer (run evs s)]"
    and "map_of (timers (run (evs @ [FileChanged p]) s)) (nextTimer (run evs s))
           = Some \<lparr>t_path = p, t_courseId = c, t_due = clock (run evs s) + 2000\<rparr>"
proof -
  have r: "recorded (run evs s)" using assms(1,3) by (rule recorded_quiet_run)
  show "length (armedFor q (run evs s)) \<le> 1" using r by (rule recorded_once)
  have w: "fileWatcher (run evs s) = Some c"
    using quiet_keeps_watcher [OF assms(3)] assms(2) by simp
  have app: "run (evs @ [FileChanged p]) s = queueSync p c 2000 (run evs s)"
  proof -
    have "\<And>s. run (evs @ [FileChanged p]) s = step (FileChanged p) (run evs s)"
      by (induction evs) simp_all
    then show ?thesis using w by (simp add: onDidChange_def)
  qed
  from queueSync_recorded [OF r, of p c 2000] app
  show "armedFor p (run (evs @ [FileChanged p]) s) = [nextTimer (run evs s)]"
    and "map_of (timers (run (evs @ [FileChanged p]) s)) (nextTimer (run evs s))
           = Some \<lparr>t_path = p, t_courseId = c, t_due = clock (run evs s) + 2000\<rparr>"
    by simp_all
qed

text \<open>
  C3. The claim fails on the code. The callback of a timeout deletes the entry of
  \<open>pendingSaves\<close> only after \<open>syncFile\<close> has completed; a timeout recorded in the
  meantime loses its entry and is not cleared by the next \<open>queueSync\<close>. In the scenario the
  changes at 2100 and 3000 lie within one debounce window, yet after the second of them
  two timeouts are armed for the path (due at 4100 and 5000), and both push.
\<close>

theorem debounce_leaves_two_timers:
  "armedFor loops_path (run first_push_slow demo_initial) = [1, 2]
   \<and> map (\<lambda>(h, t). t_due t) (timers (run first_push_slow demo_initial)) = [4100, 5000]
   \<and> pendingSaves (run first_push_slow demo_initial) = [(loops_path, 2)]
   \<and> clock (run first_push_slow demo_initial) = 3000
   \<and> pushes (run (first_push_slow @ both_timers_run) demo_initial)
        = [(loops_path, ''x = 1''), (loops_path, ''x = 3''), (loops_path, ''x = 3'')]"
  by (simp add: first_push_slow_def both_timers_run_def run_simps)

subsection \<open>Switching the course\<close>

text \<open>
  What \<open>trackLesson\<close> does to the collections of the manager: after a change of course
  they hold the new lesson only; within a course they grow. The armed timeouts are the same
  before and after.
\<close>

lemma trackLesson_switch:
  assumes "currentCourseId s = Some old" and "old \<noteq> []" and "old \<noteq> cid"
  shows "fileToSectionMap (trackLesson dir lid secs cid s) = foldl (addSection dir) [] secs"
    and "trackedLessons (trackLesson dir lid secs cid s) = {lid}"
    and "pendingSaves (trackLesson dir lid secs cid s) = []"
    and "currentCourseId (trackLesson dir lid secs cid s) = Some cid"
    and "fileWatcher (trackLesson dir lid secs cid s)
           = (case workspaceRoot s of None \<Rightarrow> None
              | Some r \<Rightarrow> if r = [] then None else Some cid)"
    and "timers (trackLesson dir lid secs cid s) = timers s"
    and "syncInProgress (trackLesson dir lid secs cid s) = syncInProgress s"
  using assms
  by (simp_all add: trackLesson_def courseChanged_def stopWatching_def startCourseWatcher_def
      Let_def split: option.splits)

lemma trackLesson_same_course:
  assumes "currentCourseId s = Some cid"
  shows "fileToSectionMap (trackLesson dir lid secs cid s)
           = foldl (addSection dir) (fileToSectionMap s) secs"
    and "trackedLessons (trackLesson dir lid secs cid s) = insert lid (trackedLessons s)"
    and "pendingSaves (trackLesson dir lid secs cid s) = pendingSaves s"
    and "timers (trackLesson dir lid secs cid s) = timers s"
  using assms
  by (simp_all add: trackLesson_def courseChanged_def startCourseWatcher_def
      Let_def split: option.splits)

lemma addSection_keeps:
  "map_of m k = Some v \<Longrightarrow> k \<notin> trackedKey dir ` {x \<in> set secs. type_s x = CodeSection}
     \<Longrightarrow> map_of (foldl (addSection dir) m secs) k = Some v"
proof (induction secs arbitrary: m)
  case Nil
  then show ?case by simp
next
  case (Cons x secs)
  have "map_of (addSection dir m x) k = Some v"
    using Cons.prems by (auto simp: addSection_def update_conv')
  moreover have "k \<notin> trackedKey dir ` {x \<in> set secs. type_s x = CodeSection}"
    using Cons.prems(2) by auto
  ultimately show ?case using Cons.IH by simp
qed

text \<open>
  C8. The claim fails on the code. Tracking a lesson of another course clears the map of
  files, the tracked lessons and the \<open>pendingSaves\<close> entries, but the timeout armed for the
  file of the previous course stays armed; once that file is tracked again, the timeout
  pushes the edit made before the switch.
\<close>

theorem course_switch_keeps_timers:
  "pendingSaves (run switch_course demo_initial) = []
   \<and> fileToSectionMap (run switch_course demo_initial) = []
   \<and> trackedLessons (run switch_course demo_initial) = {''lesson-9''}
   \<and> currentCourseId (run switch_course demo_initial) = Some ''course-2''
   \<and> armedFor loops_path (run switch_course demo_initial) = [0]
   \<and> pushes (run (switch_course @ switch_back) demo_initial) = [(loops_path, ''x = 1'')]"
  by (simp add: switch_course_def switch_back_def run_simps)

subsection \<open>The upsert\<close>

text \<open>
  \<open>saveStudentAnswer\<close> changes no count of records per section and user except from none to
  one; an existing record is updated in its place, a missing one is appended.
\<close>

lemma updateFirst_filter_length:
  "(\<And>d. P d \<Longrightarrow> Q (f d) = Q d) \<Longrightarrow>
     length (filter Q (updateFirst P f ds)) = length (filter Q ds)"
  by (induction ds) auto

lemma find_None_filter: "find P ds = None \<Longrightarrow> filter P ds = []"
  by (induction ds) (auto split: if_splits)

lemma saveStudentAnswer_count:
  "length (filter (matches a b) (saveStudentAnswer sid uid lid c ty cid ts docs))
     = (if find (matches sid uid) docs = None \<and> a = sid \<and> b = uid then 1
        else length (filter (matches a b) docs))"
proof (cases "find (matches sid uid) docs")
  case None
  then show ?thesis
    by (auto simp: saveStudentAnswer_def matches_def dest: find_None_filter)
next
  case (Some e)
  have "length (filter (matches a b)
          (updateFirst (matches sid uid) (\<lambda>d. d\<lparr>answer := c, updatedAt := ts\<rparr>) docs))
        = length (filter (matches a b) docs)"
    by (rule updateFirst_filter_length) (simp add: matches_def)
  with Some show ?thesis by (simp add: saveStudentAnswer_def)
qed

lemma saveStudentAnswer_keeps_unique:
  assumes "length (filter (matches a b) docs) \<le> 1"
  shows "length (filter (matches a b) (saveStudentAnswer sid uid lid c ty cid ts docs)) \<le> 1"
  using assms by (simp add: saveStudentAnswer_count)

lemma updateFirst_find:
  "find P ds = Some e \<Longrightarrow> (\<And>d. P d \<Longrightarrow> P (f d)) \<Longrightarrow> find P (updateFirst P f ds) = Some (f e)"
  by (induction ds) (auto split: if_splits)

lemma saveStudentAnswer_update:
  assumes "getStudentAnswer docs sid uid = Some e"
  shows "getStudentAnswer (saveStudentAnswer sid uid lid c ty cid ts docs) sid uid
           = Some (e\<lparr>answer := c, updatedAt := ts\<rparr>)
         \<and> length (saveStudentAnswer sid uid lid c ty cid ts docs) = length docs"
proof -
  from assms have f: "find (matches sid uid) docs = Some e" by (simp add: getStudentAnswer_def)
  have "find (matches sid uid)
          (updateFirst (matches sid uid) (\<lambda>d. d\<lparr>answer := c, updatedAt := ts\<rparr>) docs)
        = Some (e\<lparr>answer := c, updatedAt := ts\<rparr>)"
    using f by (rule updateFirst_find) (simp add: matches_def)
  moreover have "length (updateFirst (matches sid uid) (\<lambda>d. d\<lparr>answer := c, updatedAt := ts\<rparr>) docs)
        = length docs"
    by (induction docs) auto
  ultimately show ?thesis using f by (simp add: saveStudentAnswer_def getStudentAnswer_def)
qed

lemma saveStudentAnswer_insert:
  assumes "getStudentAnswer docs sid uid = None"
  shows "saveStudentAnswer sid uid lid c ty (Some cid) ts docs
           = docs @ [\<lparr>sectionId = sid, userId = uid, lessonId_a = lid,
                      courseId_a = (if cid = [] then None else Some cid),
                      answer = c, type_a = ty, createdAt = ts, updatedAt = ts\<rparr>]"
  using assms by (simp add: saveStudentAnswer_def getStudentAnswer_def)

text \<open>
  C4. The claim fails on the code for the input metrics. What a settled store write
  leaves in the store does not depend on the metrics snapshot of the push; in the
  scenario the snapshot holds five keystrokes, and the stored record changes in its
  \<open>answer\<close> and \<open>updatedAt\<close> only.
\<close>

theorem push_drops_input_metrics:
  "answers (saveSettles k ok (s\<lparr>tasks := [(k, t\<lparr>k_phase := Saving c im\<rparr>)]\<rparr>))
     = (if ok then saveStudentAnswer (id_s (k_section t)) (k_userId t) (lessonId (k_section t))
                     c CodeAnswer (Some (k_courseId t)) (clock s) (answers s)
        else answers s)
   \<and> map (\<lambda>(k, t). k_phase t) (tasks (run typed_then_pushed demo_with_answer))
       = [Saving ''x = 1''
            \<lparr>keystrokeCount_im = 5, pasteCount_im = 0, pasteCharCount_im = 0,
             editDurationMs_im = 0, charCount_im = 5, firstInputAt_im = 0, lastInputAt_im = 0\<rparr>]
   \<and> answers (run (typed_then_pushed @ [SaveSettles 0 True]) demo_with_answer)
       = [(saved_answer ''print(1)'')\<lparr>answer := ''x = 1'', updatedAt := 700\<rparr>]"
proof -
  have a: "answers (saveSettles k ok (s\<lparr>tasks := [(k, t\<lparr>k_phase := Saving c im\<rparr>)]\<rparr>))
     = (if ok then saveStudentAnswer (id_s (k_section t)) (k_userId t) (lessonId (k_section t))
                     c CodeAnswer (Some (k_courseId t)) (clock s) (answers s)
        else answers s)"
    by (simp add: saveSettles_def settle_def afterSync_def finallyBlock_def)
  have b: "map (\<lambda>(k, t). k_phase t) (tasks (run typed_then_pushed demo_with_answer))
       = [Saving ''x = 1''
            \<lparr>keystrokeCount_im = 5, pasteCount_im = 0, pasteCharCount_im = 0,
             editDurationMs_im = 0, charCount_im = 5, firstInputAt_im = 0, lastInputAt_im = 0\<rparr>]"
    by (simp add: typed_then_pushed_def demo_with_answer_def run_simps loops_marked)
  have c: "answers (run (typed_then_pushed @ [SaveSettles 0 True]) demo_with_answer)
       = [(saved_answer ''print(1)'')\<lparr>answer := ''x = 1'', updatedAt := 700\<rparr>]"
    by (simp add: typed_then_pushed_def demo_with_answer_def run_simps saved_answer_def)
  show ?thesis using a b c by simp
qed

end
